theory Spec2Isabelle
  imports Main
begin

section \<open>Go strings, runes and UTF-8\<close>

text \<open>
  A Go string is a sequence of bytes; it is modelled as a \<open>string\<close> (a list of 8-bit
  \<open>char\<close>s).  A rune is an \<open>int32\<close> code point, modelled as an \<open>int\<close> (no arithmetic on
  runes in this package can overflow).
\<close>

type_synonym rune = int

abbreviation NL :: char where "NL \<equiv> CHR 0x0A"
abbreviation DQ :: char where "DQ \<equiv> CHR 0x22"
abbreviation BSL :: char where "BSL \<equiv> CHR 0x5C"
abbreviation SPC :: char where "SPC \<equiv> CHR 0x20"

definition byte :: "char \<Rightarrow> int" where
  "byte c = of_char c"

definition runeError :: rune where
  "runeError = 0xFFFD"

text \<open>\<open>locb <= c && c <= hicb\<close>: the byte is a UTF-8 continuation byte.\<close>

definition contb :: "char \<Rightarrow> bool" where
  "contb c = (0x80 \<le> byte c \<and> byte c \<le> 0xBF)"

text \<open>
  The decoder that a \<open>for _, r := range str\<close> loop applies at a byte \<open>>= 0x80\<close>
  (Go's \<open>runtime.decoderune\<close>): it returns the rune and the number of bytes consumed;
  an ill-formed sequence gives \<open>U+FFFD\<close> and consumes one byte.  The masks and shifts
  of the Go code are written as \<open>mod\<close> and multiplication; \<open>decode2\<close>, \<open>decode3\<close> and
  \<open>decode4\<close> are the three cases of its \<open>switch\<close>.
\<close>

definition decode2 :: "string \<Rightarrow> rune \<times> nat" where
  "decode2 s =
     (if 1 < length s \<and> contb (s ! 1) then
        (let r = (byte (s ! 0) mod 32) * 64 + byte (s ! 1) mod 64
         in if 0x7F < r then (r, 2) else (runeError, 1))
      else (runeError, 1))"

definition decode3 :: "string \<Rightarrow> rune \<times> nat" where
  "decode3 s =
     (if 2 < length s \<and> contb (s ! 1) \<and> contb (s ! 2) then
        (let r = (byte (s ! 0) mod 16) * 4096 + (byte (s ! 1) mod 64) * 64 + byte (s ! 2) mod 64
         in if 0x7FF < r \<and> \<not> (0xD800 \<le> r \<and> r \<le> 0xDFFF) then (r, 3) else (runeError, 1))
      else (runeError, 1))"

definition decode4 :: "string \<Rightarrow> rune \<times> nat" where
  "decode4 s =
     (if 3 < length s \<and> contb (s ! 1) \<and> contb (s ! 2) \<and> contb (s ! 3) then
        (let r = (byte (s ! 0) mod 8) * 262144 + (byte (s ! 1) mod 64) * 4096
                 + (byte (s ! 2) mod 64) * 64 + byte (s ! 3) mod 64
         in if 0xFFFF < r \<and> r \<le> 0x10FFFF then (r, 4) else (runeError, 1))
      else (runeError, 1))"

definition decoderune :: "string \<Rightarrow> rune \<times> nat" where
  "decoderune s =
     (let s0 = byte (s ! 0) in
      if 0xC0 \<le> s0 \<and> s0 < 0xE0 then decode2 s
      else if 0xE0 \<le> s0 \<and> s0 < 0xF0 then decode3 s
      else if 0xF0 \<le> s0 \<and> s0 < 0xF8 then decode4 s
      else (runeError, 1))"

text \<open>
  The sequence of runes that \<open>for _, r := range str\<close> visits: a byte below \<open>0x80\<close> is
  its own rune, anything else goes through \<open>decoderune\<close>.
\<close>

function runes :: "string \<Rightarrow> rune list" where
  "runes [] = []"
| "runes (c # cs) =
     (if byte c < 0x80 then byte c # runes cs
      else fst (decoderune (c # cs)) # runes (drop (snd (decoderune (c # cs)) - 1) cs))"
  by pat_completeness auto
termination
  by (relation "measure length") auto

text \<open>
  \<open>bytes.Buffer.WriteRune\<close>: the UTF-8 encoding of a rune (Go's \<open>utf8.AppendRune\<close>);
  a rune that is out of range or a surrogate is written as \<open>U+FFFD\<close>.
\<close>

definition enc3 :: "rune \<Rightarrow> string" where
  "enc3 r = [char_of (0xE0 + r div 4096), char_of (0x80 + (r div 64) mod 64),
             char_of (0x80 + r mod 64)]"

definition enc4 :: "rune \<Rightarrow> string" where
  "enc4 r = [char_of (0xF0 + r div 262144), char_of (0x80 + (r div 4096) mod 64),
             char_of (0x80 + (r div 64) mod 64), char_of (0x80 + r mod 64)]"

definition WriteRune :: "rune \<Rightarrow> string" where
  "WriteRune r =
     (if 0 \<le> r \<and> r < 0x80 then [char_of r]
      else if 0 \<le> r \<and> r \<le> 0x7FF then [char_of (0xC0 + r div 64), char_of (0x80 + r mod 64)]
      else if r < 0 \<or> 0x10FFFF < r \<or> (0xD800 \<le> r \<and> r \<le> 0xDFFF) then enc3 runeError
      else if r \<le> 0xFFFF then enc3 r
      else enc4 r)"

text \<open>
  \<open>unicode.IsPrint\<close>.  On ASCII it is the range from space to tilde; beyond ASCII it
  is a lookup in the tables of Go's \<open>unicode\<close> package, which are taken as the
  parameter \<open>tbl\<close>.
\<close>

definition IsPrint :: "(rune \<Rightarrow> bool) \<Rightarrow> rune \<Rightarrow> bool" where
  "IsPrint tbl r = (if 0 \<le> r \<and> r < 0x80 then 0x20 \<le> r \<and> r \<le> 0x7E else tbl r)"

text \<open>\<open>utf8.ValidRune\<close>.\<close>

definition ValidRune :: "rune \<Rightarrow> bool" where
  "ValidRune r = ((0 \<le> r \<and> r < 0xD800) \<or> (0xDFFF < r \<and> r \<le> 0x10FFFF))"

text \<open>\<open>strings.IndexByte\<close>: the index of the first occurrence, \<open>None\<close> for \<open>-1\<close>.\<close>

fun IndexByte :: "string \<Rightarrow> char \<Rightarrow> nat option" where
  "IndexByte [] c = None"
| "IndexByte (x # xs) c =
     (if x = c then Some 0 else map_option Suc (IndexByte xs c))"

text \<open>\<open>strings.Contains\<close>: the substring occurs somewhere in the string.\<close>

fun hasPrefix :: "string \<Rightarrow> string \<Rightarrow> bool" where
  "hasPrefix s [] = True"
| "hasPrefix [] (p # ps) = False"
| "hasPrefix (c # cs) (p # ps) = (c = p \<and> hasPrefix cs ps)"

fun Contains :: "string \<Rightarrow> string \<Rightarrow> bool" where
  "Contains [] sub = (sub = [])"
| "Contains (c # cs) sub = (hasPrefix (c # cs) sub \<or> Contains cs sub)"

section \<open>The renderer: escaping and quoting\<close>

definition needsEscaping :: "(rune \<Rightarrow> bool) \<Rightarrow> string \<Rightarrow> bool" where
  "needsEscaping tbl str = list_ex (\<lambda>b. \<not> IsPrint tbl b \<or> b = 0x22) (runes str)"

definition lowerhex :: string where
  "lowerhex = ''0123456789abcdef''"

text \<open>
  The hexadecimal digits written by the loop \<open>for s := n; s >= 0; s -= 4\<close>, each digit
  being \<open>lowerhex[r>>uint(s)&0xF]\<close>.
\<close>

definition hexDigits :: "nat list \<Rightarrow> rune \<Rightarrow> string" where
  "hexDigits shifts r = map (\<lambda>s. lowerhex ! nat ((r div 2 ^ s) mod 16)) shifts"

text \<open>The body of the loop of \<open>writeEscapedForOutput\<close>: what is written for one rune.\<close>

definition escapeRune :: "(rune \<Rightarrow> bool) \<Rightarrow> bool \<Rightarrow> rune \<Rightarrow> string" where
  "escapeRune tbl escapeQuotes r =
     (if escapeQuotes \<and> r = 0x22 then [BSL, DQ]
      else if IsPrint tbl r then WriteRune r
      else if r = 0x07 then [BSL, CHR ''a'']
      else if r = 0x08 then [BSL, CHR ''b'']
      else if r = 0x0C then [BSL, CHR ''f'']
      else if r = 0x0A then [BSL, CHR ''n'']
      else if r = 0x0D then [BSL, CHR ''r'']
      else if r = 0x09 then [BSL, CHR ''t'']
      else if r = 0x0B then [BSL, CHR ''v'']
      else if r < 0x20 then
        [BSL, CHR ''x'', lowerhex ! nat ((r mod 256) div 16), lowerhex ! nat ((r mod 256) mod 16)]
      else if \<not> ValidRune r then [BSL, CHR ''u''] @ hexDigits [12, 8, 4, 0] 0xFFFD
      else if r < 0x10000 then [BSL, CHR ''u''] @ hexDigits [12, 8, 4, 0] r
      else [BSL, CHR ''U''] @ hexDigits [28, 24, 20, 16, 12, 8, 4, 0] r)"

text \<open>
  \<open>writeEscapedForOutput\<close>: the bytes written to \<open>w\<close>.  A string that needs no
  escaping is written as it is; otherwise the pooled buffer collects what the loop
  writes for each rune and is written in one piece.
\<close>

definition writeEscapedForOutput :: "(rune \<Rightarrow> bool) \<Rightarrow> string \<Rightarrow> bool \<Rightarrow> string" where
  "writeEscapedForOutput tbl str escapeQuotes =
     (if \<not> needsEscaping tbl str then str
      else concat (map (escapeRune tbl escapeQuotes) (runes str)))"

text \<open>
  \<open>writeIndent\<close>: the bytes written to \<open>w\<close> by the loop that cuts \<open>str\<close> at each
  newline.
\<close>

function writeIndent :: "(rune \<Rightarrow> bool) \<Rightarrow> string \<Rightarrow> string \<Rightarrow> string" where
  "writeIndent tbl str indent =
     (case IndexByte str NL of
        None \<Rightarrow>
          (if str \<noteq> [] then indent @ writeEscapedForOutput tbl str False @ [NL] else [])
      | Some nl \<Rightarrow>
          indent @ writeEscapedForOutput tbl (take nl str) False @ [NL]
            @ writeIndent tbl (drop (nl + 1) str) indent)"
  by pat_completeness auto
termination
proof (relation "measure (\<lambda>(tbl, str, indent). length str)")
  show "wf (measure (\<lambda>(tbl :: rune \<Rightarrow> bool, str :: string, indent :: string). length str))"
    by simp
next
  fix tbl :: "rune \<Rightarrow> bool" and str indent :: string and nl :: nat
  assume "IndexByte str NL = Some nl"
  then have "nl < length str"
    by (induction str arbitrary: nl) (auto split: if_splits)
  then show "((tbl, drop (nl + 1) str, indent), (tbl, str, indent))
               \<in> measure (\<lambda>(tbl, str, indent). length str)"
    by simp
qed

declare writeIndent.simps [simp del]

definition isNormal :: "rune \<Rightarrow> bool" where
  "isNormal r = (0x2D \<le> r \<and> r \<le> 0x7E)"

definition needsQuoting :: "string \<Rightarrow> bool" where
  "needsQuoting str = list_ex (\<lambda>r. \<not> isNormal r) (runes str)"

section \<open>Values, levels and the environment of a logger\<close>

text \<open>
  The values passed as \<open>interface{}\<close> (a message, a key, a value), restricted to the
  dynamic types whose \<open>fmt.Sprint\<close> is fixed by the language: \<open>nil\<close>, strings,
  integers and booleans.
\<close>

datatype any = ANil | AStr string | AInt int | ABool bool

fun digits :: "nat \<Rightarrow> string" where
  "digits n =
     (if n < 10 then [''0123456789'' ! n]
      else digits (n div 10) @ [''0123456789'' ! (n mod 10)])"

definition Itoa :: "int \<Rightarrow> string" where
  "Itoa i = (if i < 0 then CHR ''-'' # digits (nat (- i)) else digits (nat i))"

fun Sprint :: "any \<Rightarrow> string" where
  "Sprint ANil = ''<nil>''"
| "Sprint (AStr s) = s"
| "Sprint (AInt i) = Itoa i"
| "Sprint (ABool b) = (if b then ''true'' else ''false'')"

text \<open>
  Modelled from the spec: the type \<open>Level\<close>, its constants and its \<open>String\<close> method
  are declared in a file of the package that is not among the sources.  The spec gives "an
  ordered integer enumeration {Debug < Info < Warn < Error}, each with a canonical
  upper-case textual name"; \<open>levelNum\<close> is the integer order and \<open>levelTag\<close> stands for
  \<open>strings.ToUpper(level.String())\<close>.
\<close>

datatype Level = DebugLevel | InfoLevel | WarnLevel | ErrorLevel

fun levelNum :: "Level \<Rightarrow> int" where
  "levelNum DebugLevel = 0"
| "levelNum InfoLevel = 1"
| "levelNum WarnLevel = 2"
| "levelNum ErrorLevel = 3"

fun levelTag :: "Level \<Rightarrow> string" where
  "levelTag DebugLevel = ''DEBUG''"
| "levelTag InfoLevel = ''INFO''"
| "levelTag WarnLevel = ''WARN''"
| "levelTag ErrorLevel = ''ERROR''"

type_synonym Time = int

text \<open>
  What the package takes from outside, as parameters: the style variables (each stands
  for the \<open>Render\<close> method of the style of that name, which is declared in a file
  that is not among the sources), the tables of \<open>unicode.IsPrint\<close>, \<open>time.Time.Format\<close>,
  \<open>runtime.Caller\<close> (file and line, or \<open>None\<close> when the frame cannot be resolved) and
  the capacity that \<open>append\<close> chooses when it has to allocate (from the old capacity
  and the length needed).
\<close>

record env =
  TimestampSytle :: "string \<Rightarrow> string"
  LevelStyle :: "Level \<Rightarrow> string \<Rightarrow> string"
  CallerStyle :: "string \<Rightarrow> string"
  PrefixStyle :: "string \<Rightarrow> string"
  MessageStyle :: "string \<Rightarrow> string"
  KeyStyle :: "string \<Rightarrow> string"
  ValueStyle :: "string \<Rightarrow> string"
  SeparetorStyle :: "string \<Rightarrow> string"
  printTable :: "rune \<Rightarrow> bool"
  Format :: "Time \<Rightarrow> string \<Rightarrow> string"
  Caller :: "int \<Rightarrow> (string \<times> int) option"
  growCap :: "nat \<Rightarrow> nat \<Rightarrow> nat"

section \<open>Slices of \<open>interface{}\<close> and \<open>append\<close>\<close>

text \<open>
  A slice is a window on a backing array: the array's address in the store, the
  offset of the window, its length and its capacity.  The store of backing arrays is a
  list, an address being an index into it.  \<open>append\<close> writes into the backing array
  where the capacity allows, and allocates a new array otherwise.
\<close>

record slice =
  s_arr :: nat
  s_off :: nat
  s_len :: nat
  s_cap :: nat

definition nilSlice :: slice where
  "nilSlice = \<lparr>s_arr = 0, s_off = 0, s_len = 0, s_cap = 0\<rparr>"

definition wfSlice :: "any list list \<Rightarrow> slice \<Rightarrow> bool" where
  "wfSlice h s =
     (s_len s \<le> s_cap s \<and>
      (0 < s_cap s \<longrightarrow> s_arr s < length h \<and> s_off s + s_cap s \<le> length (h ! s_arr s)))"

definition elems :: "any list list \<Rightarrow> slice \<Rightarrow> any list" where
  "elems h s = (if s_len s = 0 then [] else take (s_len s) (drop (s_off s) (h ! s_arr s)))"

definition overwrite :: "any list \<Rightarrow> nat \<Rightarrow> any list \<Rightarrow> any list" where
  "overwrite cells pos xs = take pos cells @ xs @ drop (pos + length xs) cells"

definition appendSlice ::
  "env \<Rightarrow> any list list \<Rightarrow> slice \<Rightarrow> any list \<Rightarrow> any list list \<times> slice" where
  "appendSlice E h s xs =
     (let n = s_len s + length xs in
      if xs = [] then (h, s)
      else if n \<le> s_cap s then
        (h[s_arr s := overwrite (h ! s_arr s) (s_off s + s_len s) xs], s\<lparr>s_len := n\<rparr>)
      else
        (let c = max n (growCap E (s_cap s) n)
         in (h @ [elems h s @ xs @ replicate (c - n) ANil],
             \<lparr>s_arr = length h, s_off = 0, s_len = n, s_cap = c\<rparr>)))"

section \<open>The logger and the world it runs in\<close>

datatype Writer = NilWriter | Discard | Stderr | Sink nat

text \<open>
  The struct \<open>logger\<close>.  The field \<open>x\<close> of the source is \<open>l_x\<close> here.  \<open>l_mu\<close> is the
  identity of the mutex that \<open>mu\<close> points to.  A time function is \<open>None\<close> for \<open>nil\<close>,
  and otherwise gives the instant it returns at each tick of the world's clock.
\<close>

record logger =
  l_w :: Writer
  l_b :: string
  l_mu :: nat
  l_level :: Level
  l_prefix :: string
  l_timeFunc :: "(nat \<Rightarrow> Time) option"
  l_timeFormat :: string
  l_callerOffset :: int
  l_caller :: bool
  l_noColor :: bool
  l_timestamp :: bool
  l_keyvals :: slice

text \<open>
  What a run leaves behind, in order: operations on a mutex (by its identity), a
  mutation of the fields or of the buffer of the logger at an address, a call of the
  time function of the logger at an address, a \<open>Write\<close> call on a writer.
\<close>

datatype event =
    EvRLock nat | EvRUnlock nat | EvLock nat | EvUnlock nat
  | EvMutate nat | EvTimeFunc nat | EvWrite Writer

text \<open>
  The world: the store of logger structs (a \<open>*logger\<close> is an index into it), the
  store of backing arrays, what every writer has received (one entry for each \<open>Write\<close>
  call), a clock that ticks at each call of a time function, the next unused mutex
  identity and the events so far.
\<close>

record world =
  loggers :: "logger list"
  arrays :: "any list list"
  sinks :: "Writer \<Rightarrow> string list"
  ticks :: nat
  nextMu :: nat
  trace :: "event list"

datatype 'a outcome = Returned 'a | Panicked

definition emit :: "event list \<Rightarrow> world \<Rightarrow> world" where
  "emit es \<sigma> = \<sigma>\<lparr>trace := trace \<sigma> @ es\<rparr>"

text \<open>An assignment to fields of the logger at address \<open>p\<close>.\<close>

definition mutate :: "nat \<Rightarrow> (logger \<Rightarrow> logger) \<Rightarrow> world \<Rightarrow> world" where
  "mutate p f \<sigma> = emit [EvMutate p] (\<sigma>\<lparr>loggers := (loggers \<sigma>)[p := f (loggers \<sigma> ! p)]\<rparr>)"

definition Lock :: "nat \<Rightarrow> world \<Rightarrow> world" where
  "Lock p \<sigma> = emit [EvLock (l_mu (loggers \<sigma> ! p))] \<sigma>"

definition Unlock :: "nat \<Rightarrow> world \<Rightarrow> world" where
  "Unlock p \<sigma> = emit [EvUnlock (l_mu (loggers \<sigma> ! p))] \<sigma>"

definition RLock :: "nat \<Rightarrow> world \<Rightarrow> world" where
  "RLock p \<sigma> = emit [EvRLock (l_mu (loggers \<sigma> ! p))] \<sigma>"

definition RUnlock :: "nat \<Rightarrow> world \<Rightarrow> world" where
  "RUnlock p \<sigma> = emit [EvRUnlock (l_mu (loggers \<sigma> ! p))] \<sigma>"

text \<open>
  A method called on a pointer that is not the address of a logger panics (a nil
  dereference); \<open>receiver\<close> guards every method body with that check.
\<close>

definition receiver :: "world \<Rightarrow> nat \<Rightarrow> 'a outcome \<times> world \<Rightarrow> 'a outcome \<times> world" where
  "receiver \<sigma> p body = (if p < length (loggers \<sigma>) then body else (Panicked, \<sigma>))"

section \<open>The line assembler\<close>

text \<open>\<open>strings.LastIndexByte\<close>.\<close>

definition LastIndexByte :: "string \<Rightarrow> char \<Rightarrow> nat option" where
  "LastIndexByte s c = map_option (\<lambda>i. length s - 1 - i) (IndexByte (rev s) c)"

definition trimCallerPath :: "string \<Rightarrow> string" where
  "trimCallerPath path =
     (case LastIndexByte path (CHR ''/'') of
        None \<Rightarrow> path
      | Some idx \<Rightarrow>
          (case LastIndexByte (take idx path) (CHR ''/'') of
             None \<Rightarrow> path
           | Some idx' \<Rightarrow> drop (idx' + 1) path))"

text \<open>The indent marker of a multi-line value: two spaces, \<open>U+2502\<close>, a space.\<close>

definition indentBar :: string where
  "indentBar = [SPC, SPC, CHR 0xE2, CHR 0x94, CHR 0x82, SPC]"

text \<open>
  The body of the loop over the key/value pairs in \<open>log\<close>: what is written to the
  buffer for the pair \<open>keyvals[i]\<close>, \<open>keyvals[i+1]\<close>.  \<open>keyText\<close> and \<open>valText\<close> are
  the variables \<open>key\<close> and \<open>val\<close> as they stand when the three-way branch is reached
  (after the substitutions for an empty value and an empty key, and after styling);
  \<open>raw\<close> is decided on the value before both.
\<close>

definition keyText :: "env \<Rightarrow> bool \<Rightarrow> any \<Rightarrow> string" where
  "keyText E noColor k =
     (let key = Sprint k;
          key = (if key = [] then ''MISSING_KEY'' else key)
      in if \<not> noColor then KeyStyle E key else key)"

definition valText :: "env \<Rightarrow> bool \<Rightarrow> any \<Rightarrow> string" where
  "valText E noColor v =
     (let val = Sprint v;
          raw = (val = []);
          val = (if raw then [DQ, DQ] else val)
      in if \<not> noColor then ValueStyle E val else val)"

definition writeKeyval :: "env \<Rightarrow> bool \<Rightarrow> any \<Rightarrow> any \<Rightarrow> string" where
  "writeKeyval E noColor k v =
     (let sep = SeparetorStyle E;
          raw = (Sprint v = []);
          key = keyText E noColor k;
          val = valText E noColor v
      in if Contains val [NL] then
           [NL, SPC, SPC] @ key @ (sep ''='' @ [NL])
             @ writeIndent (printTable E) val (sep indentBar) @ [SPC]
         else if \<not> raw \<and> needsQuoting val then
           [SPC] @ key @ sep ''='' @ [DQ]
             @ writeEscapedForOutput (printTable E) val True @ [DQ]
         else
           [SPC] @ key @ sep ''='' @ val)"

text \<open>
  The loop \<open>for i := 0; i < len(keyvals); i += 2\<close>.  Reading \<open>keyvals[i+1]\<close> past the
  end panics: \<open>None\<close>.
\<close>

fun writeKeyvals :: "env \<Rightarrow> bool \<Rightarrow> any list \<Rightarrow> string option" where
  "writeKeyvals E noColor [] = Some []"
| "writeKeyvals E noColor [k] = None"
| "writeKeyvals E noColor (k # v # rest) =
     map_option (\<lambda>out. writeKeyval E noColor k v @ out) (writeKeyvals E noColor rest)"

text \<open>
  \<open>keyvals = append(l.keyvals, keyvals...)\<close>, then the padding of an odd sequence.
\<close>

definition effectiveKeyvals ::
  "env \<Rightarrow> any list list \<Rightarrow> slice \<Rightarrow> any list \<Rightarrow> any list list \<times> slice" where
  "effectiveKeyvals E h s keyvals =
     (case appendSlice E h s keyvals of
        (h1, kvs) \<Rightarrow>
          if s_len kvs mod 2 \<noteq> 0 then appendSlice E h1 kvs [AStr ''MISSING_VALUE'']
          else (h1, kvs))"

text \<open>
  What \<open>log\<close> writes to the buffer before the key/value pairs: timestamp, level,
  caller, prefix and message.
\<close>

definition header :: "env \<Rightarrow> logger \<Rightarrow> Time \<Rightarrow> Level \<Rightarrow> any \<Rightarrow> string" where
  "header E l t level msg =
     (if l_timestamp l then
        (let ts = Format E t (l_timeFormat l);
             ts = (if \<not> l_noColor l then TimestampSytle E ts else ts)
         in ts @ [SPC])
      else [])
     @ (let lvl = levelTag level;
            lvl = (if \<not> l_noColor l then LevelStyle E level lvl else lvl)
        in lvl @ [SPC])
     @ (if l_caller l then
          (case Caller E (l_callerOffset l) of
             Some (file, line) \<Rightarrow>
               (let caller = trimCallerPath file @ '':'' @ Itoa line @ '':'';
                    caller = (if \<not> l_noColor l then CallerStyle E caller else caller)
                in caller @ [SPC])
           | None \<Rightarrow> [])
        else [])
     @ (if l_prefix l \<noteq> [] then
          (let prefix = l_prefix l @ '':'';
               prefix = (if \<not> l_noColor l then PrefixStyle E prefix else prefix)
           in prefix @ [SPC])
        else [])
     @ (if msg \<noteq> ANil then
          (let m = Sprint msg;
               m = (if \<not> l_noColor l then MessageStyle E m else m)
           in m)
        else [])"

text \<open>
  \<open>l.w.Write(l.b.Bytes())\<close>: a nil writer panics, the discard writer drops the bytes,
  any other writer receives them as one entry.
\<close>

definition writeSink :: "Writer \<Rightarrow> string \<Rightarrow> world \<Rightarrow> unit outcome \<times> world" where
  "writeSink w bs \<sigma> =
     (case w of
        NilWriter \<Rightarrow> (Panicked, \<sigma>)
      | Discard \<Rightarrow> (Returned (), emit [EvWrite w] \<sigma>)
      | _ \<Rightarrow> (Returned (), emit [EvWrite w] (\<sigma>\<lparr>sinks := (sinks \<sigma>)(w := sinks \<sigma> w @ [bs])\<rparr>)))"

text \<open>The deferred calls of \<open>log\<close>, in the order they run: \<open>l.b.Reset()\<close>, then \<open>l.mu.Unlock()\<close>.\<close>

definition deferred :: "nat \<Rightarrow> world \<Rightarrow> world" where
  "deferred p \<sigma> = Unlock p (mutate p (\<lambda>l. l\<lparr>l_b := []\<rparr>) \<sigma>)"

text \<open>
  \<open>log\<close>.  Everything written to \<open>l.b\<close> between \<open>l.mu.Lock()\<close> and the final \<open>Write\<close> is
  one mutation of the buffer: the header, the pairs and the newline.  A panic after
  \<open>l.mu.Lock()\<close> still runs the deferred calls.
\<close>

definition log ::
  "env \<Rightarrow> world \<Rightarrow> nat \<Rightarrow> Level \<Rightarrow> any \<Rightarrow> any list \<Rightarrow> unit outcome \<times> world" where
  "log E \<sigma> p level msg keyvals =
     receiver \<sigma> p
       (let \<sigma>1 = RUnlock p (RLock p \<sigma>);
            w = l_w (loggers \<sigma>1 ! p)
        in if w = Discard then (Returned (), \<sigma>1)
           else
             (case l_timeFunc (loggers \<sigma>1 ! p) of
                None \<Rightarrow> (Panicked, \<sigma>1)
              | Some f \<Rightarrow>
                  (let t = f (ticks \<sigma>1);
                       \<sigma>2 = emit [EvTimeFunc p] (\<sigma>1\<lparr>ticks := Suc (ticks \<sigma>1)\<rparr>);
                       \<sigma>3 = Lock p \<sigma>2;
                       l = loggers \<sigma>3 ! p
                   in case effectiveKeyvals E (arrays \<sigma>3) (l_keyvals l) keyvals of
                        (h, kvs) \<Rightarrow>
                          (case writeKeyvals E (l_noColor l) (elems h kvs) of
                             None \<Rightarrow>
                               (Panicked,
                                deferred p
                                  (mutate p (\<lambda>l. l\<lparr>l_b := l_b l @ header E l t level msg\<rparr>)
                                     (\<sigma>3\<lparr>arrays := h\<rparr>)))
                           | Some body \<Rightarrow>
                               (let \<sigma>4 = mutate p
                                      (\<lambda>l. l\<lparr>l_b := l_b l @ header E l t level msg @ body @ [NL]\<rparr>)
                                      (\<sigma>3\<lparr>arrays := h\<rparr>)
                                in case writeSink (l_w (loggers \<sigma>4 ! p)) (l_b (loggers \<sigma>4 ! p)) \<sigma>4 of
                                     (r, \<sigma>5) \<Rightarrow> (r, deferred p \<sigma>5))))))"

subsection \<open>Setters, getters and derivation\<close>

definition EnableTimestamp :: "world \<Rightarrow> nat \<Rightarrow> unit outcome \<times> world" where
  "EnableTimestamp \<sigma> p =
     receiver \<sigma> p (Returned (), Unlock p (mutate p (\<lambda>l. l\<lparr>l_timestamp := True\<rparr>) (Lock p \<sigma>)))"

text \<open>\<open>DisableTimestamp\<close> assigns first and locks afterwards, as the source does.\<close>

definition DisableTimestamp :: "world \<Rightarrow> nat \<Rightarrow> unit outcome \<times> world" where
  "DisableTimestamp \<sigma> p =
     receiver \<sigma> p (Returned (), Unlock p (Lock p (mutate p (\<lambda>l. l\<lparr>l_timestamp := False\<rparr>) \<sigma>)))"

definition EnableCaller :: "world \<Rightarrow> nat \<Rightarrow> unit outcome \<times> world" where
  "EnableCaller \<sigma> p =
     receiver \<sigma> p (Returned (), Unlock p (mutate p (\<lambda>l. l\<lparr>l_caller := True\<rparr>) (Lock p \<sigma>)))"

definition DisableCaller :: "world \<Rightarrow> nat \<Rightarrow> unit outcome \<times> world" where
  "DisableCaller \<sigma> p =
     receiver \<sigma> p (Returned (), Unlock p (mutate p (\<lambda>l. l\<lparr>l_caller := False\<rparr>) (Lock p \<sigma>)))"

definition GetLevel :: "world \<Rightarrow> nat \<Rightarrow> Level outcome \<times> world" where
  "GetLevel \<sigma> p = receiver \<sigma> p (Returned (l_level (loggers \<sigma> ! p)), RUnlock p (RLock p \<sigma>))"

definition SetLevel :: "world \<Rightarrow> nat \<Rightarrow> Level \<Rightarrow> unit outcome \<times> world" where
  "SetLevel \<sigma> p level =
     receiver \<sigma> p (Returned (), Unlock p (mutate p (\<lambda>l. l\<lparr>l_level := level\<rparr>) (Lock p \<sigma>)))"

definition GetPrefix :: "world \<Rightarrow> nat \<Rightarrow> string outcome \<times> world" where
  "GetPrefix \<sigma> p = receiver \<sigma> p (Returned (l_prefix (loggers \<sigma> ! p)), RUnlock p (RLock p \<sigma>))"

definition SetPrefix :: "world \<Rightarrow> nat \<Rightarrow> string \<Rightarrow> unit outcome \<times> world" where
  "SetPrefix \<sigma> p prefix =
     receiver \<sigma> p (Returned (), Unlock p (mutate p (\<lambda>l. l\<lparr>l_prefix := prefix\<rparr>) (Lock p \<sigma>)))"

definition SetTimeFormat :: "world \<Rightarrow> nat \<Rightarrow> string \<Rightarrow> unit outcome \<times> world" where
  "SetTimeFormat \<sigma> p format =
     receiver \<sigma> p (Returned (), Unlock p (mutate p (\<lambda>l. l\<lparr>l_timeFormat := format\<rparr>) (Lock p \<sigma>)))"

definition SetTimeFunction :: "world \<Rightarrow> nat \<Rightarrow> (nat \<Rightarrow> Time) option \<Rightarrow> unit outcome \<times> world" where
  "SetTimeFunction \<sigma> p f =
     receiver \<sigma> p (Returned (), Unlock p (mutate p (\<lambda>l. l\<lparr>l_timeFunc := f\<rparr>) (Lock p \<sigma>)))"

definition SetOutput :: "world \<Rightarrow> nat \<Rightarrow> Writer \<Rightarrow> unit outcome \<times> world" where
  "SetOutput \<sigma> p w =
     receiver \<sigma> p (Returned (), Unlock p (mutate p (\<lambda>l. l\<lparr>l_w := w\<rparr>) (Lock p \<sigma>)))"

text \<open>
  \<open>With\<close>: a copy of the struct with a fresh buffer, a fresh mutex and the appended
  keyvals, at a new address, which is returned.
\<close>

definition With :: "env \<Rightarrow> world \<Rightarrow> nat \<Rightarrow> any list \<Rightarrow> nat outcome \<times> world" where
  "With E \<sigma> p keyvals =
     receiver \<sigma> p
       (let l = loggers \<sigma> ! p
        in case appendSlice E (arrays \<sigma>) (l_keyvals l) keyvals of
             (h, kvs) \<Rightarrow>
               (let sl = l\<lparr>l_b := [], l_mu := nextMu \<sigma>, l_keyvals := kvs\<rparr>
                in (Returned (length (loggers \<sigma>)),
                    \<sigma>\<lparr>loggers := loggers \<sigma> @ [sl], arrays := h, nextMu := Suc (nextMu \<sigma>)\<rparr>)))"

subsection \<open>The severity methods\<close>

definition Debug :: "env \<Rightarrow> world \<Rightarrow> nat \<Rightarrow> any \<Rightarrow> any list \<Rightarrow> unit outcome \<times> world" where
  "Debug E \<sigma> p msg keyvals =
     receiver \<sigma> p
       (let \<sigma>1 = RLock p \<sigma>;
            level = l_level (loggers \<sigma>1 ! p);
            \<sigma>2 = RUnlock p \<sigma>1
        in if levelNum level > levelNum DebugLevel then (Returned (), \<sigma>2)
           else log E \<sigma>2 p DebugLevel msg keyvals)"

definition Info :: "env \<Rightarrow> world \<Rightarrow> nat \<Rightarrow> any \<Rightarrow> any list \<Rightarrow> unit outcome \<times> world" where
  "Info E \<sigma> p msg keyvals =
     receiver \<sigma> p
       (let \<sigma>1 = RLock p \<sigma>;
            level = l_level (loggers \<sigma>1 ! p);
            \<sigma>2 = RUnlock p \<sigma>1
        in if levelNum level > levelNum InfoLevel then (Returned (), \<sigma>2)
           else log E \<sigma>2 p InfoLevel msg keyvals)"

definition Warn :: "env \<Rightarrow> world \<Rightarrow> nat \<Rightarrow> any \<Rightarrow> any list \<Rightarrow> unit outcome \<times> world" where
  "Warn E \<sigma> p msg keyvals =
     receiver \<sigma> p
       (let \<sigma>1 = RLock p \<sigma>;
            level = l_level (loggers \<sigma>1 ! p);
            \<sigma>2 = RUnlock p \<sigma>1
        in if levelNum level > levelNum WarnLevel then (Returned (), \<sigma>2)
           else log E \<sigma>2 p WarnLevel msg keyvals)"

definition Error :: "env \<Rightarrow> world \<Rightarrow> nat \<Rightarrow> any \<Rightarrow> any list \<Rightarrow> unit outcome \<times> world" where
  "Error E \<sigma> p msg keyvals =
     receiver \<sigma> p
       (let \<sigma>1 = RLock p \<sigma>;
            level = l_level (loggers \<sigma>1 ! p);
            \<sigma>2 = RUnlock p \<sigma>1
        in if levelNum level > levelNum ErrorLevel then (Returned (), \<sigma>2)
           else log E \<sigma>2 p ErrorLevel msg keyvals)"

section \<open>Notions used to state the properties\<close>

text \<open>
  \<open>strings.Split(s, "\n")\<close>, and the segments of a value as the specification counts
  them: the pieces between newlines, without a trailing empty piece.
\<close>

fun splitNL :: "string \<Rightarrow> string list" where
  "splitNL [] = [[]]"
| "splitNL (c # cs) =
     (if c = NL then [] # splitNL cs
      else (case splitNL cs of [] \<Rightarrow> [[c]] | seg # segs \<Rightarrow> (c # seg) # segs))"

definition segments :: "string \<Rightarrow> string list" where
  "segments s = (if last (splitNL s) = [] then butlast (splitNL s) else splitNL s)"

text \<open>One line of a multi-line block: the indent marker, the escaped segment, a newline.\<close>

definition blockLine :: "(rune \<Rightarrow> bool) \<Rightarrow> string \<Rightarrow> string \<Rightarrow> string" where
  "blockLine tbl indent seg = indent @ writeEscapedForOutput tbl seg False @ [NL]"

text \<open>
  In a text, every double quote stands right after a backslash.  \<open>escapedFrom prev\<close>
  reads the text from left to right, \<open>prev\<close> telling whether the byte before was a
  backslash.
\<close>

fun escapedFrom :: "bool \<Rightarrow> string \<Rightarrow> bool" where
  "escapedFrom prev [] = True"
| "escapedFrom prev (c # cs) = ((if c = DQ then prev else True) \<and> escapedFrom (c = BSL) cs)"

definition quotesEscaped :: "string \<Rightarrow> bool" where
  "quotesEscaped s = escapedFrom False s"

text \<open>
  The seven standard control characters and the letter of their escape sequence, as
  the specification names them: bell, backspace, form feed, newline, carriage return,
  tab, vertical tab.
\<close>

definition controlLetter :: "rune \<Rightarrow> char option" where
  "controlLetter r =
     (if r = 0x07 then Some (CHR ''a'') else if r = 0x08 then Some (CHR ''b'')
      else if r = 0x0C then Some (CHR ''f'') else if r = 0x0A then Some (CHR ''n'')
      else if r = 0x0D then Some (CHR ''r'') else if r = 0x09 then Some (CHR ''t'')
      else if r = 0x0B then Some (CHR ''v'') else None)"

text \<open>The UTF-8 text of a sequence of characters.\<close>

definition utf8 :: "rune list \<Rightarrow> string" where
  "utf8 rs = concat (map WriteRune rs)"

text \<open>
  What the specification expects for one character of such a string: the named escape
  for a control character, the character itself otherwise.
\<close>

definition namedOrVerbatim :: "rune \<Rightarrow> string" where
  "namedOrVerbatim r = (case controlLetter r of Some c \<Rightarrow> [BSL, c] | None \<Rightarrow> WriteRune r)"

text \<open>
  The static attributes of the logger at an address: the elements of its \<open>keyvals\<close>
  slice.
\<close>

definition staticAttrs :: "world \<Rightarrow> nat \<Rightarrow> any list" where
  "staticAttrs \<sigma> p = elems (arrays \<sigma>) (l_keyvals (loggers \<sigma> ! p))"

text \<open>
  The effective key/value sequence as the specification builds it: the static
  attributes, then the keyvals of the call, then \<open>MISSING_VALUE\<close> if the count is odd.
\<close>

definition paddedKeyvals :: "any list \<Rightarrow> any list \<Rightarrow> any list" where
  "paddedKeyvals static extra =
     (let kvs = static @ extra
      in if odd (length kvs) then kvs @ [AStr ''MISSING_VALUE''] else kvs)"

text \<open>The severity method of a level.\<close>

fun severity ::
  "Level \<Rightarrow> env \<Rightarrow> world \<Rightarrow> nat \<Rightarrow> any \<Rightarrow> any list \<Rightarrow> unit outcome \<times> world" where
  "severity DebugLevel = Debug"
| "severity InfoLevel = Info"
| "severity WarnLevel = Warn"
| "severity ErrorLevel = Error"

text \<open>A call of one of the setters.\<close>

datatype setter =
    CallSetLevel Level | CallSetPrefix string | CallSetOutput Writer
  | CallEnableTimestamp | CallDisableTimestamp | CallEnableCaller | CallDisableCaller
  | CallSetTimeFormat string | CallSetTimeFunction "(nat \<Rightarrow> Time) option"

fun callSetter :: "setter \<Rightarrow> world \<Rightarrow> nat \<Rightarrow> unit outcome \<times> world" where
  "callSetter (CallSetLevel level) \<sigma> p = SetLevel \<sigma> p level"
| "callSetter (CallSetPrefix prefix) \<sigma> p = SetPrefix \<sigma> p prefix"
| "callSetter (CallSetOutput w) \<sigma> p = SetOutput \<sigma> p w"
| "callSetter CallEnableTimestamp \<sigma> p = EnableTimestamp \<sigma> p"
| "callSetter CallDisableTimestamp \<sigma> p = DisableTimestamp \<sigma> p"
| "callSetter CallEnableCaller \<sigma> p = EnableCaller \<sigma> p"
| "callSetter CallDisableCaller \<sigma> p = DisableCaller \<sigma> p"
| "callSetter (CallSetTimeFormat format) \<sigma> p = SetTimeFormat \<sigma> p format"
| "callSetter (CallSetTimeFunction f) \<sigma> p = SetTimeFunction \<sigma> p f"

text \<open>The number of newlines that a text ends in.\<close>

definition trailingNewlines :: "string \<Rightarrow> nat" where
  "trailingNewlines s = length (takeWhile (\<lambda>c. c = NL) (rev s))"

text \<open>The events that a call added to the trace.\<close>

definition eventsOf :: "world \<Rightarrow> world \<Rightarrow> event list" where
  "eventsOf \<sigma> \<sigma>' = drop (length (trace \<sigma>)) (trace \<sigma>')"

text \<open>
  The lock discipline on a sequence of events: every mutation of the logger at
  address \<open>p\<close> happens while the mutex \<open>m\<close> is held exclusively.  \<open>held\<close> tells whether
  it is held when the sequence starts.
\<close>

fun exclusive :: "nat \<Rightarrow> nat \<Rightarrow> bool \<Rightarrow> event list \<Rightarrow> bool" where
  "exclusive m p held [] = True"
| "exclusive m p held (EvLock m' # es) = exclusive m p (if m' = m then True else held) es"
| "exclusive m p held (EvUnlock m' # es) = exclusive m p (if m' = m then False else held) es"
| "exclusive m p held (EvMutate p' # es) =
     ((if p' = p then held else True) \<and> exclusive m p held es)"
| "exclusive m p held (EvRLock m' # es) = exclusive m p held es"
| "exclusive m p held (EvRUnlock m' # es) = exclusive m p held es"
| "exclusive m p held (EvTimeFunc p' # es) = exclusive m p held es"
| "exclusive m p held (EvWrite w # es) = exclusive m p held es"

text \<open>
  A concrete setting for the examples: styles that render a text as it is, a table
  that takes every rune beyond ASCII for printable, a logger at address \<open>0\<close> that
  writes to a sink, with colours off and the threshold at \<open>InfoLevel\<close>.
\<close>

definition plainEnv :: env where
  "plainEnv =
     \<lparr>TimestampSytle = (\<lambda>s. s), LevelStyle = (\<lambda>level s. s), CallerStyle = (\<lambda>s. s),
      PrefixStyle = (\<lambda>s. s), MessageStyle = (\<lambda>s. s), KeyStyle = (\<lambda>s. s),
      ValueStyle = (\<lambda>s. s), SeparetorStyle = (\<lambda>s. s), printTable = (\<lambda>r. True),
      Format = (\<lambda>t layout. layout), Caller = (\<lambda>skip. None), growCap = (\<lambda>c n. 2 * c)\<rparr>"

definition plainLogger :: logger where
  "plainLogger =
     \<lparr>l_w = Sink 0, l_b = [], l_mu = 0, l_level = InfoLevel, l_prefix = [],
      l_timeFunc = Some (\<lambda>n. int n), l_timeFormat = [], l_callerOffset = 2,
      l_caller = False, l_noColor = True, l_timestamp = False, l_keyvals = nilSlice\<rparr>"

definition plainWorld :: world where
  "plainWorld =
     \<lparr>loggers = [plainLogger], arrays = [], sinks = (\<lambda>w. []), ticks = 0, nextMu = 1,
      trace = []\<rparr>"

text \<open>The same world with the logger writing to the discard sink.\<close>

definition discardWorld :: world where
  "discardWorld = plainWorld\<lparr>loggers := [plainLogger\<lparr>l_w := Discard\<rparr>]\<rparr>"

text \<open>
  The world after \<open>With("batch", 2)\<close> on the logger at address \<open>0\<close>: the derived logger
  is at address \<open>1\<close>.
\<close>

definition batchWorld :: world where
  "batchWorld = snd (With plainEnv plainWorld 0 [AStr ''batch'', AInt 2])"

text \<open>
  The world after three derivations in a row, as in
  \<open>l1 := l0.With("a", 1, "b", 2, "c", 3); l2 := l1.With("d", 4); l3 := l2.With("e", 5)\<close>:
  the loggers \<open>l1\<close>, \<open>l2\<close>, \<open>l3\<close> are at the addresses \<open>1\<close>, \<open>2\<close>, \<open>3\<close>.  \<open>append\<close> doubles
  the capacity when it allocates for \<open>l2\<close>, as \<open>growCap plainEnv\<close> has it.
\<close>

definition aliasWorld :: world where
  "aliasWorld =
     snd (With plainEnv
            (snd (With plainEnv
                    (snd (With plainEnv plainWorld 0
                            [AStr ''a'', AInt 1, AStr ''b'', AInt 2, AStr ''c'', AInt 3]))
                    1 [AStr ''d'', AInt 4]))
            2 [AStr ''e'', AInt 5])"

section \<open>Lemmas about runes and bytes\<close>

subsection \<open>Bytes and runes\<close>

lemma byte_range: "0 \<le> byte c \<and> byte c < 256"
  using pos_mod_sign [of 256 "of_char c :: int"] pos_mod_bound [of 256 "of_char c :: int"]
  by (simp add: byte_def)

lemma byte_inj: "byte c = byte d \<Longrightarrow> c = d"
  by (simp add: byte_def)

lemma byte_char_of: "0 \<le> x \<Longrightarrow> x < 256 \<Longrightarrow> byte (char_of x) = x"
  by (simp add: byte_def)

lemma decode2_cases:
  "decode2 s = (runeError, 1) \<or> (snd (decode2 s) = 2 \<and> 1 < length s \<and> contb (s ! 1) \<and> 0x7F < fst (decode2 s))"
  by (simp add: decode2_def Let_def)

lemma decode3_cases:
  "decode3 s = (runeError, 1) \<or> (snd (decode3 s) = 3 \<and> 2 < length s \<and> contb (s ! 1) \<and> contb (s ! 2) \<and> 0x7FF < fst (decode3 s))"
  by (simp add: decode3_def Let_def)

lemma decode4_cases:
  "decode4 s = (runeError, 1) \<or> (snd (decode4 s) = 4 \<and> 3 < length s \<and> contb (s ! 1) \<and> contb (s ! 2) \<and> contb (s ! 3) \<and> 0xFFFF < fst (decode4 s))"
  by (simp add: decode4_def Let_def)

lemma decoderune_cases:
  "decoderune s = (runeError, 1)
   \<or> (snd (decoderune s) = 2 \<and> 1 < length s \<and> contb (s ! 1) \<and> 0x7F < fst (decoderune s))
   \<or> (snd (decoderune s) = 3 \<and> 2 < length s \<and> contb (s ! 1) \<and> contb (s ! 2) \<and> 0x7FF < fst (decoderune s))
   \<or> (snd (decoderune s) = 4 \<and> 3 < length s \<and> contb (s ! 1) \<and> contb (s ! 2) \<and> contb (s ! 3) \<and> 0xFFFF < fst (decoderune s))"
  using decode2_cases [of s] decode3_cases [of s] decode4_cases [of s]
  unfolding decoderune_def Let_def by presburger

lemma decoderune_fst: "0x7F < fst (decoderune s)"
  using decoderune_cases [of s] by (auto simp: runeError_def)

lemma decoderune_cont:
  assumes "x \<in> set (take (snd (decoderune (c # cs)) - 1) cs)"
  shows "contb x"
proof -
  from assms obtain i where i: "i < snd (decoderune (c # cs)) - 1" "i < length cs" "x = cs ! i"
    by (auto simp: in_set_conv_nth)
  then have x: "x = (c # cs) ! Suc i" by simp
  from i(1) decoderune_cases [of "c # cs"]
  have "Suc i = 1 \<and> contb ((c # cs) ! 1)
        \<or> Suc i = 2 \<and> contb ((c # cs) ! 2)
        \<or> Suc i = 3 \<and> contb ((c # cs) ! 3)"
    by (elim disjE) (auto simp: less_Suc_eq numeral_2_eq_2 numeral_3_eq_3)
  with x show ?thesis by (metis One_nat_def)
qed

lemma runes_ascii: "\<forall>c\<in>set s. byte c < 0x80 \<Longrightarrow> runes s = map byte s"
  by (induction s) auto

lemma ascii_in_runes: "c \<in> set s \<Longrightarrow> byte c < 0x80 \<Longrightarrow> byte c \<in> set (runes s)"
proof (induction s rule: runes.induct)
  case 1
  then show ?case by simp
next
  case (2 c0 cs)
  show ?case
  proof (cases "byte c0 < 0x80")
    case True
    with 2 show ?thesis by auto
  next
    case False
    with "2.prems" have "c \<in> set cs" by auto
    then have "c \<in> set (take (snd (decoderune (c0 # cs)) - 1) cs)
               \<or> c \<in> set (drop (snd (decoderune (c0 # cs)) - 1) cs)"
      by (metis Un_iff append_take_drop_id set_append)
    moreover have "c \<notin> set (take (snd (decoderune (c0 # cs)) - 1) cs)"
      using decoderune_cont [of c c0 cs] "2.prems"(2) by (auto simp: contb_def)
    ultimately have "byte c \<in> set (runes (drop (snd (decoderune (c0 # cs)) - 1) cs))"
      using "2.IH"(2) False "2.prems"(2) by blast
    with False show ?thesis by simp
  qed
qed

lemma runes_below_0x80: "r \<in> set (runes s) \<Longrightarrow> r < 0x80 \<Longrightarrow> \<exists>c\<in>set s. byte c = r"
proof (induction s rule: runes.induct)
  case 1
  then show ?case by simp
next
  case (2 c0 cs)
  show ?case
  proof (cases "byte c0 < 0x80")
    case True
    with 2 show ?thesis by auto
  next
    case False
    with "2.prems" decoderune_fst [of "c0 # cs"]
    have "r \<in> set (runes (drop (snd (decoderune (c0 # cs)) - 1) cs))" by auto
    with "2.IH"(2) False "2.prems"(2)
    obtain c where "c \<in> set (drop (snd (decoderune (c0 # cs)) - 1) cs)" "byte c = r" by blast
    then show ?thesis by (auto dest: in_set_dropD)
  qed
qed

lemma runes_nonneg: "r \<in> set (runes s) \<Longrightarrow> 0 \<le> r"
proof (induction s rule: runes.induct)
  case 1
  then show ?case by simp
next
  case (2 c0 cs)
  then show ?case
    using decoderune_fst [of "c0 # cs"] byte_range [of c0]
    by (cases "byte c0 < 0x80") (auto split: if_splits)
qed

subsection \<open>What the escaping writes\<close>

lemma lowerhex_nth:
  assumes "0 \<le> k" "k < 16"
  shows "lowerhex ! nat k \<in> set lowerhex"
  using assms by (intro nth_mem) (simp add: lowerhex_def)

lemma lowerhex_bytes: "c \<in> set lowerhex \<Longrightarrow> 0x30 \<le> byte c \<and> byte c < 0x80"
  by (auto simp: lowerhex_def byte_def)

lemma hexDigits_bytes: "c \<in> set (hexDigits shifts r) \<Longrightarrow> 0x30 \<le> byte c \<and> byte c < 0x80"
proof -
  assume "c \<in> set (hexDigits shifts r)"
  then obtain s where "c = lowerhex ! nat ((r div 2 ^ s) mod 16)"
    by (auto simp: hexDigits_def)
  moreover have "0 \<le> (r div 2 ^ s) mod 16" "(r div 2 ^ s) mod 16 < 16" by simp_all
  ultimately show ?thesis using lowerhex_nth lowerhex_bytes by metis
qed

lemma enc3_bytes:
  assumes "0 \<le> r" "r \<le> 0xFFFF" "c \<in> set (enc3 r)"
  shows "0x80 \<le> byte c"
proof -
  have a: "0 \<le> r div 4096" "r div 4096 \<le> 15" using assms(1,2) by simp_all
  have b: "0 \<le> (r div 64) mod 64" "(r div 64) mod 64 < 64" by simp_all
  have d: "0 \<le> r mod 64" "r mod 64 < 64" by simp_all
  from assms(3) consider "c = char_of (0xE0 + r div 4096)" | "c = char_of (0x80 + (r div 64) mod 64)"
    | "c = char_of (0x80 + r mod 64)" by (auto simp: enc3_def)
  then show ?thesis
  proof cases
    case 1 then show ?thesis using a by (simp add: byte_char_of)
  next
    case 2 then show ?thesis using b by (simp add: byte_char_of)
  next
    case 3 then show ?thesis using d by (simp add: byte_char_of)
  qed
qed

lemma enc4_bytes:
  assumes "0 \<le> r" "r \<le> 0x10FFFF" "c \<in> set (enc4 r)"
  shows "0x80 \<le> byte c"
proof -
  have a: "0 \<le> r div 262144" "r div 262144 \<le> 4" using assms(1,2) by simp_all
  have b: "0 \<le> (r div 4096) mod 64" "(r div 4096) mod 64 < 64" by simp_all
  have b': "0 \<le> (r div 64) mod 64" "(r div 64) mod 64 < 64" by simp_all
  have d: "0 \<le> r mod 64" "r mod 64 < 64" by simp_all
  from assms(3) consider "c = char_of (0xF0 + r div 262144)" | "c = char_of (0x80 + (r div 4096) mod 64)"
    | "c = char_of (0x80 + (r div 64) mod 64)" | "c = char_of (0x80 + r mod 64)" by (auto simp: enc4_def)
  then show ?thesis
  proof cases
    case 1 then show ?thesis using a by (simp add: byte_char_of)
  next
    case 2 then show ?thesis using b by (simp add: byte_char_of)
  next
    case 3 then show ?thesis using b' by (simp add: byte_char_of)
  next
    case 4 then show ?thesis using d by (simp add: byte_char_of)
  qed
qed

lemma WriteRune_bytes:
  assumes "c \<in> set (WriteRune r)"
  shows "(0 \<le> r \<and> r < 0x80 \<and> byte c = r) \<or> 0x80 \<le> byte c"
proof -
  consider (one) "0 \<le> r" "r < 0x80"
    | (two) "0x80 \<le> r" "r \<le> 0x7FF"
    | (bad) "r < 0 \<or> 0x10FFFF < r \<or> (0xD800 \<le> r \<and> r \<le> 0xDFFF)"
    | (three) "0x7FF < r" "r \<le> 0xFFFF" "\<not> (0xD800 \<le> r \<and> r \<le> 0xDFFF)"
    | (four) "0xFFFF < r" "r \<le> 0x10FFFF"
    by linarith
  then show ?thesis
  proof cases
    case one
    with assms show ?thesis by (simp add: WriteRune_def byte_char_of)
  next
    case two
    have a: "0 \<le> r div 64" "r div 64 \<le> 31" using two by simp_all
    have d: "0 \<le> r mod 64" "r mod 64 < 64" by simp_all
    from two assms have "c = char_of (0xC0 + r div 64) \<or> c = char_of (0x80 + r mod 64)"
      by (simp add: WriteRune_def)
    then show ?thesis using a d by (auto simp: byte_char_of)
  next
    case bad
    then have "WriteRune r = enc3 runeError" by (auto simp: WriteRune_def)
    with assms enc3_bytes [of runeError c] show ?thesis by (simp add: runeError_def)
  next
    case three
    then have "WriteRune r = enc3 r" by (auto simp: WriteRune_def)
    with assms enc3_bytes [of r c] three show ?thesis by simp
  next
    case four
    then have "WriteRune r = enc4 r" by (auto simp: WriteRune_def)
    with assms enc4_bytes [of r c] four show ?thesis by simp
  qed
qed

lemma escapeRune_bytes:
  assumes "c \<in> set (escapeRune tbl eq r)"
  shows "0x20 \<le> byte c"
proof (cases "eq \<and> r = 0x22")
  case True
  with assms show ?thesis by (auto simp: escapeRune_def byte_def)
next
  case nq: False
  show ?thesis
  proof (cases "IsPrint tbl r")
    case True
    with nq assms have "c \<in> set (WriteRune r)" by (auto simp: escapeRune_def)
    from WriteRune_bytes [OF this] True show ?thesis by (auto simp: IsPrint_def split: if_splits)
  next
    case False
    have hx: "\<And>k. 0 \<le> k \<Longrightarrow> k < 16 \<Longrightarrow> 0x20 \<le> byte (lowerhex ! nat k)"
      using lowerhex_nth lowerhex_bytes by fastforce
    have h1: "0x20 \<le> byte (lowerhex ! nat ((r mod 256) div 16))"
      by (rule hx) simp_all
    have h2: "0x20 \<le> byte (lowerhex ! nat ((r mod 256) mod 16))"
      by (rule hx) simp_all
    have h3: "\<And>sh x. c \<in> set (hexDigits sh x) \<Longrightarrow> 0x20 \<le> byte c"
      using hexDigits_bytes by fastforce
    have bs: "0x20 \<le> byte BSL" "0x20 \<le> byte (CHR ''x'')" "0x20 \<le> byte (CHR ''u'')" "0x20 \<le> byte (CHR ''U'')"
      "0x20 \<le> byte (CHR ''a'')" "0x20 \<le> byte (CHR ''b'')" "0x20 \<le> byte (CHR ''f'')" "0x20 \<le> byte (CHR ''n'')"
      "0x20 \<le> byte (CHR ''r'')" "0x20 \<le> byte (CHR ''t'')" "0x20 \<le> byte (CHR ''v'')"
      by (simp_all add: byte_def)
    from assms nq False show ?thesis
      unfolding escapeRune_def
      by (auto split: if_splits intro: h1 h2 h3 bs)
  qed
qed

lemma escapeRune_DQ:
  assumes "DQ \<in> set (escapeRune tbl eq r)"
  shows "r = 0x22"
proof (rule ccontr)
  assume nq: "r \<noteq> 0x22"
  show False
  proof (cases "IsPrint tbl r")
    case True
    with nq assms have "DQ \<in> set (WriteRune r)" by (auto simp: escapeRune_def)
    from WriteRune_bytes [OF this] nq show False by (auto simp: byte_def)
  next
    case False
    have hx: "DQ \<noteq> lowerhex ! nat k" if "0 \<le> k" "k < 16" for k
    proof
      assume "DQ = lowerhex ! nat k"
      with lowerhex_nth [OF that] have "DQ \<in> set lowerhex" by simp
      from lowerhex_bytes [OF this] show False by (simp add: byte_def)
    qed
    have h1: "DQ \<noteq> lowerhex ! nat ((r mod 256) div 16)"
      by (rule hx) simp_all
    have h2: "DQ \<noteq> lowerhex ! nat ((r mod 256) mod 16)"
      by (rule hx) simp_all
    have h3: "\<And>sh x. DQ \<notin> set (hexDigits sh x)"
      using hexDigits_bytes by (fastforce simp: byte_def)
    from assms nq False show False
      unfolding escapeRune_def
      by (auto split: if_splits simp: h1 h2 h3)
  qed
qed

lemma escapedFrom_noDQ: "DQ \<notin> set s \<Longrightarrow> escapedFrom prev s"
  by (induction s arbitrary: prev) auto

lemma escapedFrom_mono: "escapedFrom False s \<Longrightarrow> escapedFrom prev s"
  by (cases s) auto

lemma escapedFrom_append:
  "escapedFrom prev xs \<Longrightarrow> escapedFrom False ys \<Longrightarrow> escapedFrom prev (xs @ ys)"
  by (induction xs arbitrary: prev) (auto intro: escapedFrom_mono)

lemma quotesEscaped_noDQ: "DQ \<notin> set s \<Longrightarrow> quotesEscaped s"
  by (simp add: quotesEscaped_def escapedFrom_noDQ)

lemma quotesEscaped_append:
  "quotesEscaped xs \<Longrightarrow> quotesEscaped ys \<Longrightarrow> quotesEscaped (xs @ ys)"
  by (simp add: quotesEscaped_def escapedFrom_append)

lemma quotesEscaped_concat:
  "\<forall>p\<in>set ps. quotesEscaped p \<Longrightarrow> quotesEscaped (concat ps)"
  by (induction ps) (simp_all add: quotesEscaped_def escapedFrom_append)

lemma quotesEscaped_escapeRune: "quotesEscaped (escapeRune tbl True r)"
proof (cases "r = 0x22")
  case True
  then show ?thesis by (simp add: escapeRune_def quotesEscaped_def)
next
  case False
  then have "DQ \<notin> set (escapeRune tbl True r)" using escapeRune_DQ by blast
  then show ?thesis by (rule quotesEscaped_noDQ)
qed

lemma byte_DQ: "byte DQ = 0x22" by (simp add: byte_def)
lemma byte_NL: "byte NL = 0x0A" by (simp add: byte_def)
lemma byte_SPC: "byte SPC = 0x20" by (simp add: byte_def)

lemma noEscaping_noDQ: "\<not> needsEscaping tbl s \<Longrightarrow> DQ \<notin> set s"
  using ascii_in_runes [of DQ s] by (auto simp: needsEscaping_def list_ex_iff byte_DQ)

lemma noEscaping_noNL:
  assumes "\<not> needsEscaping tbl s"
  shows "NL \<notin> set s"
proof
  assume "NL \<in> set s"
  then have "10 \<in> set (runes s)" using ascii_in_runes [of NL s] by (simp add: byte_NL)
  moreover have "\<not> IsPrint tbl 10" by (simp add: IsPrint_def)
  ultimately have "needsEscaping tbl s" unfolding needsEscaping_def list_ex_iff by blast
  with assms show False by simp
qed

lemma quotesEscaped_writeEscaped: "quotesEscaped (writeEscapedForOutput tbl s True)"
proof (cases "needsEscaping tbl s")
  case True
  then show ?thesis
    by (simp add: writeEscapedForOutput_def quotesEscaped_concat quotesEscaped_escapeRune)
next
  case False
  then show ?thesis
    by (simp add: writeEscapedForOutput_def quotesEscaped_noDQ noEscaping_noDQ)
qed

lemma writeEscaped_noNL: "NL \<notin> set (writeEscapedForOutput tbl s eq)"
proof (cases "needsEscaping tbl s")
  case True
  have "\<And>r. NL \<notin> set (escapeRune tbl eq r)"
    using escapeRune_bytes [of NL tbl eq] by (auto simp: byte_NL)
  with True show ?thesis by (simp add: writeEscapedForOutput_def)
next
  case False
  then show ?thesis by (simp add: writeEscapedForOutput_def noEscaping_noNL)
qed

lemma writeEscaped_empty: "writeEscapedForOutput tbl [] eq = []"
  by (simp add: writeEscapedForOutput_def needsEscaping_def)

subsection \<open>Quoting\<close>

lemma needsQuoting_byte:
  assumes "c \<in> set s" "byte c < 0x2D"
  shows "needsQuoting s"
proof -
  from assms have "byte c \<in> set (runes s)" by (intro ascii_in_runes) simp_all
  moreover from assms(2) have "\<not> isNormal (byte c)" by (simp add: isNormal_def)
  ultimately show ?thesis unfolding needsQuoting_def list_ex_iff by blast
qed

lemma needsQuoting_normal:
  assumes "\<forall>c\<in>set s. 0x2D \<le> byte c \<and> byte c \<le> 0x7E"
  shows "\<not> needsQuoting s"
proof -
  from assms have "runes s = map byte s" by (intro runes_ascii) auto
  with assms show ?thesis by (auto simp: needsQuoting_def list_ex_iff isNormal_def)
qed

lemma Contains_NL: "Contains s [NL] = (NL \<in> set s)"
  by (induction s) (auto)

subsection \<open>Cutting at newlines\<close>

lemma IndexByte_None: "(IndexByte s c = None) = (c \<notin> set s)"
  by (induction s) auto

lemma IndexByte_first: "c \<notin> set a \<Longrightarrow> IndexByte (a @ c # rest) c = Some (length a)"
  by (induction a) auto

lemma writeIndent_noNL:
  "NL \<notin> set s \<Longrightarrow>
   writeIndent tbl s indent = (if s \<noteq> [] then blockLine tbl indent s else [])"
  by (subst writeIndent.simps) (simp add: blockLine_def IndexByte_None [THEN iffD2])

lemma writeIndent_NL:
  "NL \<notin> set a \<Longrightarrow>
   writeIndent tbl (a @ NL # rest) indent = blockLine tbl indent a @ writeIndent tbl rest indent"
  by (subst writeIndent.simps) (simp add: IndexByte_first blockLine_def)

lemma splitNL_nonempty: "splitNL s \<noteq> []"
  by (induction s) (auto split: list.splits)

lemma splitNL_noNL: "NL \<notin> set a \<Longrightarrow> splitNL a = [a]"
  by (induction a) auto

lemma splitNL_NL: "NL \<notin> set a \<Longrightarrow> splitNL (a @ NL # rest) = a # splitNL rest"
  by (induction a) auto

lemma segments_noNL: "NL \<notin> set a \<Longrightarrow> segments a = (if a \<noteq> [] then [a] else [])"
  by (simp add: segments_def splitNL_noNL)

lemma segments_NL: "NL \<notin> set a \<Longrightarrow> segments (a @ NL # rest) = a # segments rest"
  using splitNL_nonempty [of rest] by (simp add: segments_def splitNL_NL)

lemma writeIndent_segments:
  "writeIndent tbl s indent = concat (map (blockLine tbl indent) (segments s))"
proof (induction s rule: length_induct)
  case (1 s)
  show ?case
  proof (cases "NL \<in> set s")
    case False
    then show ?thesis by (simp add: writeIndent_noNL segments_noNL)
  next
    case True
    then obtain a rest where s: "s = a @ NL # rest" and a: "NL \<notin> set a"
      by (auto dest: split_list_first)
    from s have "length rest < length s" by simp
    with 1 have "writeIndent tbl rest indent = concat (map (blockLine tbl indent) (segments rest))"
      by blast
    with s a show ?thesis by (simp add: writeIndent_NL segments_NL)
  qed
qed

lemma writeIndent_append:
  "pre = [] \<or> last pre = NL \<Longrightarrow>
   writeIndent tbl (pre @ rest) indent = writeIndent tbl pre indent @ writeIndent tbl rest indent"
proof (induction pre rule: length_induct)
  case (1 pre)
  show ?case
  proof (cases "pre = []")
    case True
    then show ?thesis by (simp add: writeIndent_noNL)
  next
    case False
    with "1.prems" have "NL \<in> set pre" by (metis last_in_set)
    then obtain a r where pre: "pre = a @ NL # r" and a: "NL \<notin> set a"
      by (auto dest: split_list_first)
    from pre "1.prems" have r: "r = [] \<or> last r = NL" by (cases "r = []") auto
    from pre have "length r < length pre" by simp
    with 1 r have "writeIndent tbl (r @ rest) indent
                   = writeIndent tbl r indent @ writeIndent tbl rest indent"
      by blast
    with pre a show ?thesis by (simp add: writeIndent_NL)
  qed
qed

subsection \<open>Decoding what \<open>WriteRune\<close> wrote\<close>

lemma d4096: "(r::int) div 4096 = r div 64 div 64"
  using zdiv_zmult2_eq [of 64 r 64] by simp

lemma d262144: "(r::int) div 262144 = r div 4096 div 64"
  using zdiv_zmult2_eq [of 64 r 4096] by simp

lemma lin3: "r = q * 64 + m \<Longrightarrow> q = a * 64 + b \<Longrightarrow> a * 4096 + b * 64 + m = (r::int)"
  by simp

lemma lin4:
  "r3 = r \<Longrightarrow> a = c * 64 + b \<Longrightarrow> r3 = a * 4096 + x \<Longrightarrow> c * 262144 + b * 4096 + x = (r::int)"
  by simp

lemma split3: "(r::int) div 4096 * 4096 + (r div 64) mod 64 * 64 + r mod 64 = r"
  unfolding d4096
  by (rule lin3 [OF div_mult_mod_eq [symmetric] div_mult_mod_eq [symmetric]])

lemma split4:
  "(r::int) div 262144 * 262144 + (r div 4096) mod 64 * 4096 + ((r div 64) mod 64 * 64 + r mod 64) = r"
  unfolding d262144
  by (rule lin4 [OF split3 div_mult_mod_eq [symmetric]]) (simp only: add.assoc)

lemma modk: "0 \<le> (y::int) \<Longrightarrow> y < m \<Longrightarrow> (k * m + y) mod m = y"
  by simp

lemma cont_byte:
  assumes "0 \<le> (x::int)" "x < 64"
  shows "byte (char_of (0x80 + x)) mod 64 = x" "contb (char_of (0x80 + x))"
proof -
  have v: "byte (char_of (0x80 + x)) = 0x80 + x" using assms by (simp add: byte_char_of)
  show "byte (char_of (0x80 + x)) mod 64 = x"
    unfolding v using modk [of x 64 2] assms by simp
  show "contb (char_of (0x80 + x))"
    unfolding contb_def v using assms by simp
qed

lemma decode_two_gen:
  assumes "2 \<le> q" "q \<le> 31" "0 \<le> m" "m < 64"
  shows "decoderune (char_of (0xC0 + q) # char_of (0x80 + m) # rest) = (q * 64 + m, 2)"
proof -
  have v: "byte (char_of (0xC0 + q)) = 0xC0 + q" using assms by (simp add: byte_char_of)
  have "(0xC0 + q) mod 32 = q" using modk [of q 32 6] assms by simp
  note s0 = this v
  have big: "0x7F < q * 64 + m" using assms by simp
  show ?thesis
    using assms(1,2) big
    by (simp add: decoderune_def decode2_def Let_def s0 cont_byte [OF assms(3,4)])
qed

lemma decode_three_gen:
  assumes "0 \<le> a" "a \<le> 15" "0 \<le> b" "b < 64" "0 \<le> m" "m < 64"
    and "0x7FF < a * 4096 + b * 64 + m"
    and "\<not> (0xD800 \<le> a * 4096 + b * 64 + m \<and> a * 4096 + b * 64 + m \<le> 0xDFFF)"
  shows "decoderune (char_of (0xE0 + a) # char_of (0x80 + b) # char_of (0x80 + m) # rest)
           = (a * 4096 + b * 64 + m, 3)"
proof -
  have v: "byte (char_of (0xE0 + a)) = 0xE0 + a" using assms by (simp add: byte_char_of)
  have "(0xE0 + a) mod 16 = a" using modk [of a 16 14] assms by simp
  note s0 = this v
  show ?thesis
    using assms(1,2,7,8)
    by (simp add: decoderune_def decode3_def Let_def s0 cont_byte [OF assms(3,4)]
          cont_byte [OF assms(5,6)])
qed

lemma decode_four_gen:
  assumes "0 \<le> a" "a \<le> 4" "0 \<le> b" "b < 64" "0 \<le> c" "c < 64" "0 \<le> m" "m < 64"
    and "0xFFFF < a * 262144 + b * 4096 + (c * 64 + m)"
    and "a * 262144 + b * 4096 + (c * 64 + m) \<le> 0x10FFFF"
  shows "decoderune (char_of (0xF0 + a) # char_of (0x80 + b) # char_of (0x80 + c)
                       # char_of (0x80 + m) # rest)
           = (a * 262144 + b * 4096 + (c * 64 + m), 4)"
proof -
  have v: "byte (char_of (0xF0 + a)) = 0xF0 + a" using assms by (simp add: byte_char_of)
  have "(0xF0 + a) mod 8 = a" using modk [of a 8 30] assms by simp
  note s0 = this v
  show ?thesis
    using assms(1,2,9,10)
    by (simp add: decoderune_def decode4_def Let_def s0 cont_byte [OF assms(3,4)]
          cont_byte [OF assms(5,6)] cont_byte [OF assms(7,8)] add.assoc)
qed

lemma runes_lead:
  assumes "0x80 \<le> byte c" "decoderune (c # cs) = (r, Suc n)" "n \<le> length cs"
  shows "runes (c # cs) = r # runes (drop n cs)"
  using assms by simp

lemma runes_WriteRune:
  assumes "ValidRune r"
  shows "runes (WriteRune r @ rest) = r # runes rest"
proof -
  from assms consider (one) "0 \<le> r" "r < 0x80"
    | (two) "0x80 \<le> r" "r \<le> 0x7FF"
    | (three) "0x7FF < r" "r \<le> 0xFFFF" "\<not> (0xD800 \<le> r \<and> r \<le> 0xDFFF)"
    | (four) "0xFFFF < r" "r \<le> 0x10FFFF"
    unfolding ValidRune_def by linarith
  then show ?thesis
  proof cases
    case one
    then show ?thesis by (simp add: WriteRune_def byte_char_of)
  next
    case two
    have a: "2 \<le> r div 64" "r div 64 \<le> 31" using two by simp_all
    have d: "0 \<le> r mod 64" "r mod 64 < 64" by simp_all
    have w: "WriteRune r = [char_of (0xC0 + r div 64), char_of (0x80 + r mod 64)]"
      using two by (simp add: WriteRune_def)
    have b0: "0x80 \<le> byte (char_of (0xC0 + r div 64))" using a by (simp add: byte_char_of)
    have "decoderune (char_of (0xC0 + r div 64) # char_of (0x80 + r mod 64) # rest)
            = (r div 64 * 64 + r mod 64, 2)"
      by (rule decode_two_gen [OF a d])
    then have "decoderune (char_of (0xC0 + r div 64) # char_of (0x80 + r mod 64) # rest) = (r, Suc 1)"
      by simp
    from runes_lead [OF b0 this] show ?thesis unfolding w by simp
  next
    case three
    have a: "0 \<le> r div 4096" "r div 4096 \<le> 15" using three by simp_all
    have b: "0 \<le> (r div 64) mod 64" "(r div 64) mod 64 < 64" by simp_all
    have d: "0 \<le> r mod 64" "r mod 64 < 64" by simp_all
    have w: "WriteRune r = enc3 r" using three by (auto simp: WriteRune_def)
    have b0: "0x80 \<le> byte (char_of (0xE0 + r div 4096))" using a by (simp add: byte_char_of)
    have "decoderune (char_of (0xE0 + r div 4096) # char_of (0x80 + (r div 64) mod 64)
                        # char_of (0x80 + r mod 64) # rest)
            = (r div 4096 * 4096 + (r div 64) mod 64 * 64 + r mod 64, 3)"
    proof (rule decode_three_gen [OF a b d])
      show "0x7FF < r div 4096 * 4096 + (r div 64) mod 64 * 64 + r mod 64"
        unfolding split3 by (rule three(1))
      show "\<not> (0xD800 \<le> r div 4096 * 4096 + (r div 64) mod 64 * 64 + r mod 64
               \<and> r div 4096 * 4096 + (r div 64) mod 64 * 64 + r mod 64 \<le> 0xDFFF)"
        unfolding split3 by (rule three(3))
    qed
    then have "decoderune (char_of (0xE0 + r div 4096) # char_of (0x80 + (r div 64) mod 64)
                        # char_of (0x80 + r mod 64) # rest) = (r, Suc 2)"
      by (simp only: split3) simp
    from runes_lead [OF b0 this] show ?thesis unfolding w enc3_def by simp
  next
    case four
    have a: "0 \<le> r div 262144" "r div 262144 \<le> 4" using four by simp_all
    have b: "0 \<le> (r div 4096) mod 64" "(r div 4096) mod 64 < 64" by simp_all
    have c: "0 \<le> (r div 64) mod 64" "(r div 64) mod 64 < 64" by simp_all
    have d: "0 \<le> r mod 64" "r mod 64 < 64" by simp_all
    have w: "WriteRune r = enc4 r" using four by (auto simp: WriteRune_def)
    have b0: "0x80 \<le> byte (char_of (0xF0 + r div 262144))" using a by (simp add: byte_char_of)
    have "decoderune (char_of (0xF0 + r div 262144) # char_of (0x80 + (r div 4096) mod 64)
                        # char_of (0x80 + (r div 64) mod 64) # char_of (0x80 + r mod 64) # rest)
            = (r div 262144 * 262144 + (r div 4096) mod 64 * 4096
                 + ((r div 64) mod 64 * 64 + r mod 64), 4)"
    proof (rule decode_four_gen [OF a b c d])
      show "0xFFFF < r div 262144 * 262144 + (r div 4096) mod 64 * 4096
                       + ((r div 64) mod 64 * 64 + r mod 64)"
        unfolding split4 by (rule four(1))
      show "r div 262144 * 262144 + (r div 4096) mod 64 * 4096
              + ((r div 64) mod 64 * 64 + r mod 64) \<le> 0x10FFFF"
        unfolding split4 by (rule four(2))
    qed
    then have "decoderune (char_of (0xF0 + r div 262144) # char_of (0x80 + (r div 4096) mod 64)
                        # char_of (0x80 + (r div 64) mod 64) # char_of (0x80 + r mod 64) # rest)
                 = (r, Suc 3)"
      by (simp only: split4) simp
    from runes_lead [OF b0 this] show ?thesis unfolding w enc4_def by simp
  qed
qed

lemma runes_utf8: "\<forall>r\<in>set rs. ValidRune r \<Longrightarrow> runes (utf8 rs) = rs"
  by (induction rs) (simp_all add: utf8_def runes_WriteRune)

lemma controlLetter_cases:
  "controlLetter r = Some c \<Longrightarrow> 0x07 \<le> r \<and> r \<le> 0x0D"
  by (auto simp: controlLetter_def split: if_splits)

lemma escapeRune_expected:
  assumes "controlLetter r \<noteq> None \<or> IsPrint tbl r"
  shows "escapeRune tbl eq r = (if eq \<and> r = 0x22 then [BSL, DQ] else namedOrVerbatim r)"
proof (cases "controlLetter r")
  case None
  with assms have "IsPrint tbl r" by simp
  with None show ?thesis by (simp add: escapeRune_def namedOrVerbatim_def)
next
  case (Some c)
  from controlLetter_cases [OF Some] have np: "\<not> IsPrint tbl r" "r \<noteq> 0x22"
    by (auto simp: IsPrint_def)
  with Some show ?thesis
    by (auto simp: escapeRune_def namedOrVerbatim_def controlLetter_def split: if_splits)
qed


lemma runes_all_ascii: "\<forall>r\<in>set (runes s). r < 0x80 \<Longrightarrow> \<forall>c\<in>set s. byte c < 0x80"
proof (induction s rule: runes.induct)
  case 1
  then show ?case by simp
next
  case (2 c0 cs)
  show ?case
  proof (cases "byte c0 < 0x80")
    case True
    with 2 show ?thesis by auto
  next
    case False
    with "2.prems" decoderune_fst [of "c0 # cs"] show ?thesis by auto
  qed
qed

lemma normal_runes_bytes:
  assumes "\<forall>r\<in>set (runes s). 0x2D \<le> r \<and> r \<le> 0x7E"
  shows "\<forall>c\<in>set s. 0x2D \<le> byte c \<and> byte c \<le> 0x7E"
proof -
  from assms have "\<forall>r\<in>set (runes s). r < 0x80" by auto
  then have a: "\<forall>c\<in>set s. byte c < 0x80" by (rule runes_all_ascii)
  then have "runes s = map byte s" by (rule runes_ascii)
  with assms show ?thesis by auto
qed

section \<open>The renderer: properties\<close>

text \<open>
  Claim C1, as the code has it.  Every text that contains a double quote or a space
  needs quoting.  When a pair with a non-empty value is rendered and the text of the
  value that the branch examines (the value itself with colours off, the styled value
  otherwise) contains a double quote or a space and no newline, the pair is written as
  a space, the key, the separator, and the text between two double quotes, escaped with
  quote escaping on; in the escaped text every double quote stands right after a
  backslash.  A value that contains a newline does not take this branch.
\<close>

theorem quoted_inline:
  "(DQ \<in> set s \<or> SPC \<in> set s \<longrightarrow> needsQuoting s) \<and>
   (Sprint v \<noteq> [] \<and> (DQ \<in> set (valText E nc v) \<or> SPC \<in> set (valText E nc v))
      \<and> NL \<notin> set (valText E nc v) \<longrightarrow>
    writeKeyval E nc k v =
      [SPC] @ keyText E nc k @ SeparetorStyle E ''='' @ [DQ]
        @ writeEscapedForOutput (printTable E) (valText E nc v) True @ [DQ]
    \<and> quotesEscaped (writeEscapedForOutput (printTable E) (valText E nc v) True))"
proof -
  have q: "needsQuoting t" if "DQ \<in> set t \<or> SPC \<in> set t" for t
    using that needsQuoting_byte [of DQ t] needsQuoting_byte [of SPC t]
    by (auto simp: byte_DQ byte_SPC)
  show ?thesis
    by (auto simp: q writeKeyval_def Let_def Contains_NL quotesEscaped_writeEscaped)
qed

text \<open>
  The theorem at a value with a space and a double quote, colours off.
\<close>

theorem quoted_inline_witness:
  "needsQuoting ''a b'' \<and>
   writeKeyval plainEnv True (AStr ''k'') (AStr (''a '' @ [DQ] @ ''b''))
     = [SPC] @ ''k='' @ [DQ] @ ''a '' @ [BSL, DQ] @ ''b'' @ [DQ]
   \<and> quotesEscaped (''a '' @ [BSL, DQ] @ ''b'')"
proof -
  have e: "writeEscapedForOutput (printTable plainEnv) (''a '' @ [DQ] @ ''b'') True = ''a '' @ [BSL, DQ] @ ''b''"
    by code_simp
  show ?thesis
    using quoted_inline [of "''a b''" "AStr (''a '' @ [DQ] @ ''b'')" plainEnv True "AStr ''k''"] e
    by (simp add: valText_def keyText_def plainEnv_def)
qed

text \<open>
  Claim C1 as stated covers values that also contain a newline.  Such a value, here
  with a double quote and a space in it, is written as an indented block: it is not
  wrapped in double quotes and its double quote is not escaped.
\<close>

theorem quoted_inline_counterexample:
  "DQ \<in> set (''a'' @ [DQ, NL] @ ''b c'') \<and> SPC \<in> set (''a'' @ [DQ, NL] @ ''b c'')
   \<and> writeKeyval plainEnv True (AStr ''k'') (AStr (''a'' @ [DQ, NL] @ ''b c''))
       = [NL, SPC, SPC] @ ''k='' @ [NL] @ indentBar @ ''a'' @ [DQ, NL] @ indentBar @ ''b c'' @ [NL, SPC]
   \<and> writeKeyval plainEnv True (AStr ''k'') (AStr (''a'' @ [DQ, NL] @ ''b c''))
       \<noteq> [SPC] @ ''k='' @ [DQ]
            @ writeEscapedForOutput (printTable plainEnv) (''a'' @ [DQ, NL] @ ''b c'') True @ [DQ]"
  by code_simp

text \<open>
  Claim C2.  When the text of the value contains a newline, the pair is written as a
  block: a newline, two spaces, the key, the separator, a newline, then one line for
  each segment of the text (the indent marker, the escaped segment, a newline), then a
  space.  No escaped segment contains a newline, so the block has as many indented
  lines as the text has segments, and the segments are the pieces of the text split at
  newlines without a trailing empty piece.  Whether the value would need quoting plays
  no part.
\<close>

theorem multiline_block:
  assumes "NL \<in> set (valText E nc v)"
  shows "writeKeyval E nc k v =
           [NL, SPC, SPC] @ keyText E nc k @ SeparetorStyle E ''='' @ [NL]
             @ concat (map (blockLine (printTable E) (SeparetorStyle E indentBar))
                         (segments (valText E nc v)))
             @ [SPC]
         \<and> (\<forall>seg\<in>set (segments (valText E nc v)).
               blockLine (printTable E) (SeparetorStyle E indentBar) seg
                 = SeparetorStyle E indentBar @ writeEscapedForOutput (printTable E) seg False @ [NL]
               \<and> NL \<notin> set (writeEscapedForOutput (printTable E) seg False))
         \<and> length (segments (valText E nc v))
             = length (splitNL (valText E nc v))
                 - (if last (splitNL (valText E nc v)) = [] then 1 else 0)"
  using assms
  by (simp add: writeKeyval_def Let_def Contains_NL writeIndent_segments writeEscaped_noNL
        blockLine_def segments_def)

text \<open>
  The theorem at the value \<open>a\n\nb c\n\<close>: three lines for four pieces.
\<close>

theorem multiline_block_witness:
  "writeKeyval plainEnv True (AStr ''lines'') (AStr ''a\<newline>\<newline>b c\<newline>'')
     = [NL, SPC, SPC] @ ''lines='' @ [NL]
         @ indentBar @ ''a'' @ [NL] @ indentBar @ [NL] @ indentBar @ ''b c'' @ [NL] @ [SPC]
   \<and> length (segments ''a\<newline>\<newline>b c\<newline>'') = 3
   \<and> length (splitNL ''a\<newline>\<newline>b c\<newline>'') = 4"
proof -
  have h: "NL \<in> set (valText plainEnv True (AStr ''a\<newline>\<newline>b c\<newline>''))"
    by (simp add: valText_def)
  have e: "concat (map (blockLine (printTable plainEnv) (SeparetorStyle plainEnv indentBar))
                      (segments (valText plainEnv True (AStr ''a\<newline>\<newline>b c\<newline>''))))
           = indentBar @ ''a'' @ [NL] @ indentBar @ [NL] @ indentBar @ ''b c'' @ [NL]"
    by code_simp
  have l: "length (segments ''a\<newline>\<newline>b c\<newline>'') = 3" "length (splitNL ''a\<newline>\<newline>b c\<newline>'') = 4"
    by code_simp+
  from multiline_block [OF h, of "AStr ''lines''"] e l show ?thesis
    by (simp add: keyText_def plainEnv_def)
qed

text \<open>
  Claim C4, as the code has it.  For a string made of the seven standard control
  characters and of printable characters, in any order, the escaping writes the named
  escape sequence for each control character and each printable character as it is, in
  the order of the string; the one exception is that with quote escaping on a double
  quote is written as a backslash and a double quote.
\<close>

theorem named_escapes:
  assumes "\<forall>r\<in>set rs. controlLetter r \<noteq> None \<or> (IsPrint tbl r \<and> ValidRune r)"
  shows "writeEscapedForOutput tbl (utf8 rs) eq
           = concat (map (\<lambda>r. if eq \<and> r = 0x22 then [BSL, DQ] else namedOrVerbatim r) rs)"
proof -
  have valid: "\<forall>r\<in>set rs. ValidRune r"
  proof
    fix r assume "r \<in> set rs"
    with assms have "controlLetter r \<noteq> None \<or> ValidRune r" by blast
    then show "ValidRune r"
      using controlLetter_cases [of r] by (auto simp: ValidRune_def)
  qed
  then have rs: "runes (utf8 rs) = rs" by (rule runes_utf8)
  have each: "\<forall>r\<in>set rs. escapeRune tbl eq r
                 = (if eq \<and> r = 0x22 then [BSL, DQ] else namedOrVerbatim r)"
    using assms escapeRune_expected by blast
  show ?thesis
  proof (cases "needsEscaping tbl (utf8 rs)")
    case True
    have "map (escapeRune tbl eq) rs
            = map (\<lambda>r. if eq \<and> r = 0x22 then [BSL, DQ] else namedOrVerbatim r) rs"
      using each by (intro map_cong) simp_all
    moreover from True have "writeEscapedForOutput tbl (utf8 rs) eq
                      = concat (map (escapeRune tbl eq) (runes (utf8 rs)))"
      by (simp add: writeEscapedForOutput_def)
    ultimately show ?thesis by (simp only: rs)
  next
    case False
    with rs have plain: "\<forall>r\<in>set rs. IsPrint tbl r \<and> r \<noteq> 0x22"
      by (auto simp: needsEscaping_def list_ex_iff)
    have "map (\<lambda>r. if eq \<and> r = 0x22 then [BSL, DQ] else namedOrVerbatim r) rs = map WriteRune rs"
    proof (intro map_cong refl)
      fix r assume r: "r \<in> set rs"
      with plain have p: "IsPrint tbl r" "r \<noteq> 0x22" by auto
      have "controlLetter r = None"
      proof (cases "controlLetter r")
        case (Some c)
        from controlLetter_cases [OF Some] p(1) show ?thesis by (auto simp: IsPrint_def)
      qed simp
      with p show "(if eq \<and> r = 0x22 then [BSL, DQ] else namedOrVerbatim r) = WriteRune r"
        by (simp add: namedOrVerbatim_def)
    qed
    moreover from False have "writeEscapedForOutput tbl (utf8 rs) eq = utf8 rs"
      by (simp add: writeEscapedForOutput_def)
    ultimately show ?thesis by (simp only: utf8_def)
  qed
qed

text \<open>
  The theorem at a string that holds all seven control characters between printable
  ones, one of them beyond ASCII.
\<close>

theorem named_escapes_witness:
  "writeEscapedForOutput (printTable plainEnv)
     (utf8 [0x78, 0x07, 0x08, 0x0C, 0x0A, 0x0D, 0x09, 0x0B, 0x79, 0xE9]) False
   = [CHR ''x'', BSL, CHR ''a'', BSL, CHR ''b'', BSL, CHR ''f'', BSL, CHR ''n'', BSL, CHR ''r'',
      BSL, CHR ''t'', BSL, CHR ''v'', CHR ''y'', CHR 0xC3, CHR 0xA9]"
proof -
  have h: "\<forall>r\<in>set [0x78, 0x07, 0x08, 0x0C, 0x0A, 0x0D, 0x09, 0x0B, 0x79, 0xE9 :: rune].
             controlLetter r \<noteq> None \<or> (IsPrint (printTable plainEnv) r \<and> ValidRune r)"
    by (simp add: controlLetter_def IsPrint_def ValidRune_def plainEnv_def)
  have e: "concat (map (\<lambda>r. if False \<and> r = 0x22 then [BSL, DQ] else namedOrVerbatim r)
             [0x78, 0x07, 0x08, 0x0C, 0x0A, 0x0D, 0x09, 0x0B, 0x79, 0xE9])
           = [CHR ''x'', BSL, CHR ''a'', BSL, CHR ''b'', BSL, CHR ''f'', BSL, CHR ''n'', BSL, CHR ''r'',
              BSL, CHR ''t'', BSL, CHR ''v'', CHR ''y'', CHR 0xC3, CHR 0xA9]"
    by code_simp
  from named_escapes [OF h, of False] e show ?thesis by simp
qed

text \<open>
  Claim C4 as stated has every printable character written as it is.  Take a string
  that holds all seven control characters, after a letter and before a double quote.
  With quote escaping on, the double quote, which is printable, is written with a
  backslash before it.
\<close>

theorem named_escapes_counterexample:
  "IsPrint (printTable plainEnv) 0x22
   \<and> writeEscapedForOutput (printTable plainEnv)
        (utf8 [0x61, 0x07, 0x08, 0x0C, 0x0A, 0x0D, 0x09, 0x0B, 0x22]) True
       = [CHR ''a'', BSL, CHR ''a'', BSL, CHR ''b'', BSL, CHR ''f'', BSL, CHR ''n'', BSL, CHR ''r'',
          BSL, CHR ''t'', BSL, CHR ''v'', BSL, DQ]
   \<and> concat (map namedOrVerbatim [0x61, 0x07, 0x08, 0x0C, 0x0A, 0x0D, 0x09, 0x0B, 0x22])
       = [CHR ''a'', BSL, CHR ''a'', BSL, CHR ''b'', BSL, CHR ''f'', BSL, CHR ''n'', BSL, CHR ''r'',
          BSL, CHR ''t'', BSL, CHR ''v'', DQ]
   \<and> writeEscapedForOutput (printTable plainEnv)
        (utf8 [0x61, 0x07, 0x08, 0x0C, 0x0A, 0x0D, 0x09, 0x0B, 0x22]) True
       \<noteq> concat (map namedOrVerbatim [0x61, 0x07, 0x08, 0x0C, 0x0A, 0x0D, 0x09, 0x0B, 0x22])"
  by code_simp

text \<open>
  Claim C7, as the code has it.  A text whose runes all lie between \<open>-\<close> and \<open>~\<close>
  needs no quoting, the empty text included, and all its bytes lie in that range.
  When a pair with a non-empty value is rendered and the runes of the text that the
  renderer examines lie in that range, that text is written as it is after the
  separator; the text examined is the value itself with colours off and the styled
  value with colours on, so with colours off a non-empty value in the range is written
  as it is.  An empty value is not written as it is, with either colour setting: the
  text examined is the token of two double quotes, styled when colours are on, and
  this token is written after the separator, neither quoted nor escaped, unless the
  style put a newline into it.  With colours off, and with colours on under a style
  that leaves the token as it is, what is written is the two double quotes.
\<close>

theorem unquoted_inline:
  "((\<forall>r\<in>set (runes s). 0x2D \<le> r \<and> r \<le> 0x7E) \<longrightarrow>
      \<not> needsQuoting s \<and> (\<forall>c\<in>set s. 0x2D \<le> byte c \<and> byte c \<le> 0x7E)) \<and>
   (Sprint v \<noteq> [] \<and> (\<forall>r\<in>set (runes (valText E nc v)). 0x2D \<le> r \<and> r \<le> 0x7E) \<longrightarrow>
      writeKeyval E nc k v = [SPC] @ keyText E nc k @ SeparetorStyle E ''='' @ valText E nc v) \<and>
   (s \<noteq> [] \<and> (\<forall>r\<in>set (runes s). 0x2D \<le> r \<and> r \<le> 0x7E) \<longrightarrow>
      valText E True (AStr s) = s \<and>
      writeKeyval E True k (AStr s) = [SPC] @ keyText E True k @ SeparetorStyle E ''='' @ s) \<and>
   (Sprint v = [] \<longrightarrow>
      valText E nc v = (if nc then [DQ, DQ] else ValueStyle E [DQ, DQ]) \<and>
      (NL \<notin> set (valText E nc v) \<longrightarrow>
         writeKeyval E nc k v = [SPC] @ keyText E nc k @ SeparetorStyle E ''='' @ valText E nc v) \<and>
      (nc \<or> ValueStyle E [DQ, DQ] = [DQ, DQ] \<longrightarrow>
         writeKeyval E nc k v = [SPC] @ keyText E nc k @ SeparetorStyle E ''='' @ [DQ, DQ])) \<and>
   (Sprint v = [] \<longrightarrow>
      valText E True v = [DQ, DQ] \<and>
      writeKeyval E True k v = [SPC] @ keyText E True k @ SeparetorStyle E ''='' @ [DQ, DQ])"
proof -
  have q: "\<not> needsQuoting t" if "\<forall>r\<in>set (runes t). 0x2D \<le> r \<and> r \<le> 0x7E" for t
    using that by (auto simp: needsQuoting_def list_ex_iff isNormal_def)
  have n: "NL \<notin> set t" if "\<forall>r\<in>set (runes t). 0x2D \<le> r \<and> r \<le> 0x7E" for t
    using normal_runes_bytes [OF that] by (auto simp: byte_NL)
  have 1: "(\<forall>r\<in>set (runes s). 0x2D \<le> r \<and> r \<le> 0x7E) \<longrightarrow>
      \<not> needsQuoting s \<and> (\<forall>c\<in>set s. 0x2D \<le> byte c \<and> byte c \<le> 0x7E)"
    using q [of s] normal_runes_bytes [of s] by blast
  have 2: "Sprint v \<noteq> [] \<and> (\<forall>r\<in>set (runes (valText E nc v)). 0x2D \<le> r \<and> r \<le> 0x7E) \<longrightarrow>
      writeKeyval E nc k v = [SPC] @ keyText E nc k @ SeparetorStyle E ''='' @ valText E nc v"
    using q [of "valText E nc v"] n [of "valText E nc v"]
    by (auto simp: writeKeyval_def Let_def Contains_NL)
  have 3: "s \<noteq> [] \<and> (\<forall>r\<in>set (runes s). 0x2D \<le> r \<and> r \<le> 0x7E) \<longrightarrow>
      valText E True (AStr s) = s \<and>
      writeKeyval E True k (AStr s) = [SPC] @ keyText E True k @ SeparetorStyle E ''='' @ s"
    using q [of s] n [of s]
    by (auto simp: writeKeyval_def Let_def Contains_NL valText_def)
  have 4: "Sprint v = [] \<longrightarrow>
      valText E nc v = (if nc then [DQ, DQ] else ValueStyle E [DQ, DQ]) \<and>
      (NL \<notin> set (valText E nc v) \<longrightarrow>
         writeKeyval E nc k v = [SPC] @ keyText E nc k @ SeparetorStyle E ''='' @ valText E nc v) \<and>
      (nc \<or> ValueStyle E [DQ, DQ] = [DQ, DQ] \<longrightarrow>
         writeKeyval E nc k v = [SPC] @ keyText E nc k @ SeparetorStyle E ''='' @ [DQ, DQ])"
    by (auto simp: writeKeyval_def Let_def Contains_NL valText_def)
  have 5: "Sprint v = [] \<longrightarrow>
      valText E True v = [DQ, DQ] \<and>
      writeKeyval E True k v = [SPC] @ keyText E True k @ SeparetorStyle E ''='' @ [DQ, DQ]"
    by (auto simp: writeKeyval_def Let_def Contains_NL valText_def)
  from 1 2 3 4 5 show ?thesis by (intro conjI)
qed

text \<open>
  The theorem at a value in the range and at the empty value, with colours off and
  with colours on under the styles of \<open>plainEnv\<close>, which leave a text as it is.
\<close>

theorem unquoted_inline_witness:
  "\<not> needsQuoting ''count-3~'' \<and>
   writeKeyval plainEnv True (AStr ''k'') (AStr ''count-3~'') = [SPC] @ ''k='' @ ''count-3~'' \<and>
   writeKeyval plainEnv False (AStr ''k'') (AStr ''count-3~'') = [SPC] @ ''k='' @ ''count-3~'' \<and>
   writeKeyval plainEnv True (AStr ''k'') (AStr []) = [SPC] @ ''k='' @ [DQ, DQ] \<and>
   writeKeyval plainEnv False (AStr ''k'') (AStr []) = [SPC] @ ''k='' @ [DQ, DQ]"
proof -
  have h: "\<forall>r\<in>set (runes ''count-3~''). 0x2D \<le> r \<and> r \<le> 0x7E" by (simp add: byte_def)
  from unquoted_inline [of "''count-3~''" "AStr ''count-3~''" plainEnv True "AStr ''k''"]
    unquoted_inline [of "''count-3~''" "AStr ''count-3~''" plainEnv False "AStr ''k''"]
    unquoted_inline [of "[]" "AStr []" plainEnv True "AStr ''k''"]
    unquoted_inline [of "[]" "AStr []" plainEnv False "AStr ''k''"] h
  show ?thesis by (simp add: valText_def keyText_def plainEnv_def byte_def)
qed

text \<open>
  Claim C7 as stated has the empty value written as it is, unquoted.  It is written
  as two double quotes.
\<close>

theorem unquoted_inline_counterexample:
  "\<not> needsQuoting [] \<and>
   writeKeyval plainEnv True (AStr ''k'') (AStr []) = [SPC] @ ''k='' @ [DQ, DQ] \<and>
   writeKeyval plainEnv True (AStr ''k'') (AStr []) \<noteq> [SPC] @ ''k='' @ []"
  by code_simp

text \<open>
  Claim C9.  In the lines written for a multi-line value, an empty segment that is
  followed by a newline gives exactly the indent marker and a newline; any segment
  that is followed by a newline gives the indent marker, the escaped segment and a
  newline.  A last segment without a newline after it gives no line when it is empty,
  and its own line otherwise.  \<open>pre\<close> is the text before the segment, empty or ending
  in a newline.
\<close>

theorem empty_segment_line:
  assumes "pre = [] \<or> last pre = NL"
  shows "writeIndent tbl (pre @ NL # rest) indent
           = writeIndent tbl pre indent @ (indent @ [NL]) @ writeIndent tbl rest indent
         \<and> (NL \<notin> set a \<longrightarrow>
              writeIndent tbl (pre @ a @ NL # rest) indent
                = writeIndent tbl pre indent
                    @ (indent @ writeEscapedForOutput tbl a False @ [NL])
                    @ writeIndent tbl rest indent)
         \<and> (NL \<notin> set seg \<longrightarrow>
              writeIndent tbl (pre @ seg) indent
                = writeIndent tbl pre indent
                    @ (if seg = [] then [] else indent @ writeEscapedForOutput tbl seg False @ [NL]))"
  using assms writeIndent_NL [of "[]" tbl rest indent] writeIndent_NL [of a tbl rest indent]
  by (simp add: writeIndent_append writeIndent_noNL blockLine_def writeEscaped_empty)

text \<open>
  The theorem at the value \<open>a\n\nb\<close>, whose second segment is empty, and at \<open>a\n\n\<close>,
  whose trailing empty segment gives no line.
\<close>

theorem empty_segment_line_witness:
  "writeIndent (printTable plainEnv) (''a\<newline>'' @ NL # ''b'') indentBar
     = writeIndent (printTable plainEnv) ''a\<newline>'' indentBar @ (indentBar @ [NL])
         @ writeIndent (printTable plainEnv) ''b'' indentBar
   \<and> writeIndent (printTable plainEnv) (''a\<newline>'' @ ''c'' @ NL # ''b'') indentBar
     = writeIndent (printTable plainEnv) ''a\<newline>'' indentBar
         @ (indentBar @ writeEscapedForOutput (printTable plainEnv) ''c'' False @ [NL])
         @ writeIndent (printTable plainEnv) ''b'' indentBar
   \<and> writeIndent (printTable plainEnv) (''a\<newline>'' @ []) indentBar
       = writeIndent (printTable plainEnv) ''a\<newline>'' indentBar
   \<and> writeIndent (printTable plainEnv) ''a\<newline>\<newline>b'' indentBar
       = indentBar @ ''a'' @ [NL] @ indentBar @ [NL] @ indentBar @ ''b'' @ [NL]
   \<and> writeIndent (printTable plainEnv) ''a\<newline>\<newline>'' indentBar
       = indentBar @ ''a'' @ [NL] @ indentBar @ [NL]"
proof -
  have e: "writeIndent (printTable plainEnv) ''a\<newline>\<newline>b'' indentBar
       = indentBar @ ''a'' @ [NL] @ indentBar @ [NL] @ indentBar @ ''b'' @ [NL]"
    "writeIndent (printTable plainEnv) ''a\<newline>\<newline>'' indentBar
       = indentBar @ ''a'' @ [NL] @ indentBar @ [NL]"
    by code_simp+
  from empty_segment_line [where pre = "''a\<newline>''" and seg = "[]" and tbl = "printTable plainEnv"
      and rest = "''b''" and indent = indentBar and a = "''c''"] e
  show ?thesis by simp
qed

section \<open>Lemmas about slices and the logger\<close>

subsection \<open>Slices\<close>

lemma length_elems: "wfSlice h s \<Longrightarrow> length (elems h s) = s_len s"
  by (auto simp: wfSlice_def elems_def)

lemma overwrite_parts:
  assumes "off + k \<le> length cells"
  shows "drop off (overwrite cells (off + k) xs)
           = take k (drop off cells) @ xs @ drop (off + k + length xs) cells"
proof -
  have "length (take (off + k) cells) = off + k" using assms by simp
  then have "drop off (take (off + k) cells @ xs @ drop (off + k + length xs) cells)
          = drop off (take (off + k) cells) @ xs @ drop (off + k + length xs) cells"
    by simp
  moreover have "drop off (take (off + k) cells) = take k (drop off cells)"
    by (simp add: drop_take)
  ultimately show ?thesis by (simp add: overwrite_def)
qed

lemma length_overwrite:
  "pos + length xs \<le> length cells \<Longrightarrow> length (overwrite cells pos xs) = length cells"
  by (simp add: overwrite_def)

lemma elems_overwrite:
  assumes "n \<le> k" "off + k \<le> length cells"
  shows "take n (drop off (overwrite cells (off + k) xs)) = take n (drop off cells)"
proof -
  have "length (take k (drop off cells)) = k" using assms(2) by simp
  with assms(1) show ?thesis
    unfolding overwrite_parts [OF assms(2)] by (simp add: min_def)
qed

lemma elems_overwrite_new:
  assumes "off + k \<le> length cells"
  shows "take (k + length xs) (drop off (overwrite cells (off + k) xs))
           = take k (drop off cells) @ xs"
proof -
  have "length (take k (drop off cells)) = k" using assms by simp
  then show ?thesis unfolding overwrite_parts [OF assms] by simp
qed

lemma appendSlice_elems:
  assumes "wfSlice h s" "appendSlice E h s xs = (h', s')"
  shows "elems h' s' = elems h s @ xs \<and> wfSlice h' s' \<and> s_len s' = s_len s + length xs"
proof (cases "xs = []")
  case True
  with assms show ?thesis by (simp add: appendSlice_def)
next
  case ne: False
  show ?thesis
  proof (cases "s_len s + length xs \<le> s_cap s")
    case True
    with ne assms(2) have h': "h' = h[s_arr s := overwrite (h ! s_arr s) (s_off s + s_len s) xs]"
      and s': "s' = s\<lparr>s_len := s_len s + length xs\<rparr>"
      by (simp_all add: appendSlice_def Let_def)
    from True ne have cap: "0 < s_cap s" by (cases xs) auto
    with assms(1) have arr: "s_arr s < length h" and fit: "s_off s + s_cap s \<le> length (h ! s_arr s)"
      by (simp_all add: wfSlice_def)
    from True fit have fit': "s_off s + s_len s \<le> length (h ! s_arr s)"
      and fit'': "s_off s + s_len s + length xs \<le> length (h ! s_arr s)" by simp_all
    have e: "take (s_len s + length xs) (drop (s_off s) (h' ! s_arr s))
            = take (s_len s) (drop (s_off s) (h ! s_arr s)) @ xs"
      unfolding h' using arr elems_overwrite_new [OF fit'] by simp
    have l: "length (h' ! s_arr s) = length (h ! s_arr s)"
      unfolding h' using arr length_overwrite [OF fit''] by simp
    have "elems h' s' = elems h s @ xs"
      using e ne by (simp add: elems_def s')
    moreover have "wfSlice h' s'"
      using True fit l arr by (simp add: wfSlice_def s' h')
    ultimately show ?thesis by (simp add: s')
  next
    case False
    with ne assms(2) have h': "h' = h @ [elems h s @ xs
              @ replicate (max (s_len s + length xs) (growCap E (s_cap s) (s_len s + length xs))
                            - (s_len s + length xs)) ANil]"
      and s': "s' = \<lparr>s_arr = length h, s_off = 0, s_len = s_len s + length xs,
                     s_cap = max (s_len s + length xs) (growCap E (s_cap s) (s_len s + length xs))\<rparr>"
      by (simp_all add: appendSlice_def Let_def)
    have l: "length (elems h s) = s_len s" by (rule length_elems [OF assms(1)])
    have "elems h' s' = elems h s @ xs" using l ne by (simp add: elems_def s' h')
    moreover have "wfSlice h' s'" using l by (simp add: wfSlice_def s' h')
    ultimately show ?thesis by (simp add: s')
  qed
qed

lemma appendSlice_keeps:
  assumes "wfSlice h s" "appendSlice E h s xs = (h', s')"
  shows "elems h' s = elems h s \<and> wfSlice h' s"
proof (cases "xs = [] \<or> \<not> s_len s + length xs \<le> s_cap s")
  case True
  then consider "xs = []" | "xs \<noteq> []" "\<not> s_len s + length xs \<le> s_cap s" by blast
  then show ?thesis
  proof cases
    case 1
    with assms show ?thesis by (simp add: appendSlice_def)
  next
    case 2
    with assms(2) obtain new where h': "h' = h @ [new]"
      by (auto simp: appendSlice_def Let_def)
    show ?thesis
    proof (cases "0 < s_cap s")
      case True
      with assms(1) have "s_arr s < length h" by (simp add: wfSlice_def)
      with assms(1) show ?thesis by (simp add: elems_def wfSlice_def h' nth_append)
    next
      case False
      with assms(1) show ?thesis by (simp add: elems_def wfSlice_def)
    qed
  qed
next
  case False
  with assms(2) have h': "h' = h[s_arr s := overwrite (h ! s_arr s) (s_off s + s_len s) xs]"
    by (simp add: appendSlice_def Let_def)
  from False have cap: "0 < s_cap s" by (cases xs) auto
  with assms(1) have arr: "s_arr s < length h" and fit: "s_off s + s_cap s \<le> length (h ! s_arr s)"
    by (simp_all add: wfSlice_def)
  from False fit have fit': "s_off s + s_len s \<le> length (h ! s_arr s)"
    and fit'': "s_off s + s_len s + length xs \<le> length (h ! s_arr s)" by simp_all
  have l: "length (h' ! s_arr s) = length (h ! s_arr s)"
    unfolding h' using arr length_overwrite [OF fit''] by simp
  have e: "take (s_len s) (drop (s_off s) (h' ! s_arr s)) = take (s_len s) (drop (s_off s) (h ! s_arr s))"
    unfolding h' using arr elems_overwrite [OF le_refl fit'] by simp
  have "elems h' s = elems h s" using e by (simp add: elems_def)
  moreover have "wfSlice h' s" using assms(1) l arr by (simp add: wfSlice_def h')
  ultimately show ?thesis by simp
qed

lemma effectiveKeyvals_elems:
  assumes "wfSlice h s" "effectiveKeyvals E h s kvs = (h', s')"
  shows "elems h' s' = elems h s @ kvs
            @ (if odd (length (elems h s @ kvs)) then [AStr ''MISSING_VALUE''] else [])
         \<and> even (length (elems h' s')) \<and> wfSlice h' s'"
proof -
  obtain h1 s1 where a: "appendSlice E h s kvs = (h1, s1)" by (cases "appendSlice E h s kvs")
  from appendSlice_elems [OF assms(1) a]
  have 1: "elems h1 s1 = elems h s @ kvs" "wfSlice h1 s1" by simp_all
  define n where "n = length (elems h s @ kvs)"
  have len: "s_len s1 = n" using 1 length_elems [OF 1(2)] by (simp add: n_def)
  show ?thesis
  proof (cases "odd n")
    case True
    then have "s_len s1 mod 2 \<noteq> 0" using len by (simp add: odd_iff_mod_2_eq_one)
    with assms(2) a have b: "appendSlice E h1 s1 [AStr ''MISSING_VALUE''] = (h', s')"
      by (simp add: effectiveKeyvals_def)
    from appendSlice_elems [OF 1(2) b] 1
    have "elems h' s' = (elems h s @ kvs) @ [AStr ''MISSING_VALUE'']" "wfSlice h' s'" by simp_all
    moreover from this(1) have "length (elems h' s') = Suc n" by (simp add: n_def)
    ultimately show ?thesis using True unfolding n_def [symmetric] by simp
  next
    case False
    then have "\<not> s_len s1 mod 2 \<noteq> 0" using len by (simp add: odd_iff_mod_2_eq_one)
    with assms(2) a have "h' = h1" "s' = s1" by (simp_all add: effectiveKeyvals_def)
    with 1 have "elems h' s' = elems h s @ kvs" "wfSlice h' s'" by simp_all
    moreover from this(1) have "length (elems h' s') = n" by (simp add: n_def)
    ultimately show ?thesis using False unfolding n_def [symmetric] by simp
  qed
qed

lemma writeKeyvals_even: "even (length xs) \<Longrightarrow> \<exists>body. writeKeyvals E nc xs = Some body"
  by (induction E nc xs rule: writeKeyvals.induct) auto

subsection \<open>What \<open>log\<close> does\<close>

lemma log_discard:
  assumes "p < length (loggers \<sigma>)" "l_w (loggers \<sigma> ! p) = Discard"
  shows "log E \<sigma> p level msg kvs
           = (Returned (), \<sigma>\<lparr>trace := trace \<sigma> @ [EvRLock (l_mu (loggers \<sigma> ! p)),
                                                  EvRUnlock (l_mu (loggers \<sigma> ! p))]\<rparr>)"
  using assms
  by (simp add: log_def receiver_def Let_def RLock_def RUnlock_def emit_def)

lemma log_ordinary:
  assumes p: "p < length (loggers \<sigma>)"
    and w: "l_w (loggers \<sigma> ! p) \<noteq> Discard" "l_w (loggers \<sigma> ! p) \<noteq> NilWriter"
    and f: "l_timeFunc (loggers \<sigma> ! p) = Some f"
    and e: "effectiveKeyvals E (arrays \<sigma>) (l_keyvals (loggers \<sigma> ! p)) kvs = (h', s')"
    and b: "writeKeyvals E (l_noColor (loggers \<sigma> ! p)) (elems h' s') = Some body"
  shows "log E \<sigma> p level msg kvs
           = (Returned (),
              \<sigma>\<lparr>loggers := (loggers \<sigma>)[p := (loggers \<sigma> ! p)\<lparr>l_b := []\<rparr>],
                arrays := h',
                sinks := (sinks \<sigma>)(l_w (loggers \<sigma> ! p) :=
                   sinks \<sigma> (l_w (loggers \<sigma> ! p))
                     @ [l_b (loggers \<sigma> ! p)
                          @ header E (loggers \<sigma> ! p) (f (ticks \<sigma>)) level msg @ body @ [NL]]),
                ticks := Suc (ticks \<sigma>),
                trace := trace \<sigma> @ [EvRLock (l_mu (loggers \<sigma> ! p)), EvRUnlock (l_mu (loggers \<sigma> ! p)),
                                    EvTimeFunc p, EvLock (l_mu (loggers \<sigma> ! p)), EvMutate p,
                                    EvWrite (l_w (loggers \<sigma> ! p)), EvMutate p,
                                    EvUnlock (l_mu (loggers \<sigma> ! p))]\<rparr>)"
proof -
  define l where "l = loggers \<sigma> ! p"
  show ?thesis
    using assms unfolding l_def [symmetric]
    by (cases "l_w l")
       (simp_all add: log_def receiver_def Let_def RLock_def RUnlock_def Lock_def Unlock_def
          emit_def mutate_def deferred_def writeSink_def l_def [symmetric])
qed

lemma log_frame:
  assumes "p < length (loggers \<sigma>a)" "p < length (loggers \<sigma>b)"
    and "loggers \<sigma>a ! p = loggers \<sigma>b ! p" "arrays \<sigma>a = arrays \<sigma>b"
    and "sinks \<sigma>a = sinks \<sigma>b" "ticks \<sigma>a = ticks \<sigma>b"
  shows "fst (log E \<sigma>a p level msg kvs) = fst (log E \<sigma>b p level msg kvs)
         \<and> sinks (snd (log E \<sigma>a p level msg kvs)) = sinks (snd (log E \<sigma>b p level msg kvs))"
  using assms
  by (simp add: log_def receiver_def Let_def RLock_def RUnlock_def Lock_def Unlock_def
        emit_def mutate_def deferred_def writeSink_def
      split: option.splits prod.splits Writer.splits)

lemma severity_below:
  assumes "p < length (loggers \<sigma>)" "levelNum c < levelNum (l_level (loggers \<sigma> ! p))"
  shows "severity c E \<sigma> p msg kvs
           = (Returned (), \<sigma>\<lparr>trace := trace \<sigma> @ [EvRLock (l_mu (loggers \<sigma> ! p)),
                                                  EvRUnlock (l_mu (loggers \<sigma> ! p))]\<rparr>)"
  using assms
  by (cases c)
     (simp_all add: Debug_def Info_def Warn_def Error_def receiver_def Let_def RLock_def
        RUnlock_def emit_def)

lemma severity_enabled:
  assumes "p < length (loggers \<sigma>)" "levelNum (l_level (loggers \<sigma> ! p)) \<le> levelNum c"
  shows "severity c E \<sigma> p msg kvs
           = log E (\<sigma>\<lparr>trace := trace \<sigma> @ [EvRLock (l_mu (loggers \<sigma> ! p)),
                                           EvRUnlock (l_mu (loggers \<sigma> ! p))]\<rparr>) p c msg kvs"
  using assms
  by (cases c)
     (simp_all add: Debug_def Info_def Warn_def Error_def receiver_def Let_def RLock_def
        RUnlock_def emit_def)

lemma severity_frame:
  assumes "p < length (loggers \<sigma>a)" "p < length (loggers \<sigma>b)"
    and "loggers \<sigma>a ! p = loggers \<sigma>b ! p" "arrays \<sigma>a = arrays \<sigma>b"
    and "sinks \<sigma>a = sinks \<sigma>b" "ticks \<sigma>a = ticks \<sigma>b"
  shows "fst (severity c E \<sigma>a p msg kvs) = fst (severity c E \<sigma>b p msg kvs)
         \<and> sinks (snd (severity c E \<sigma>a p msg kvs)) = sinks (snd (severity c E \<sigma>b p msg kvs))"
proof (cases "levelNum c < levelNum (l_level (loggers \<sigma>a ! p))")
  case True
  with assms show ?thesis by (simp add: severity_below)
next
  case False
  then have a: "levelNum (l_level (loggers \<sigma>a ! p)) \<le> levelNum c" by simp
  with assms(3) have b: "levelNum (l_level (loggers \<sigma>b ! p)) \<le> levelNum c" by simp
  show ?thesis
    unfolding severity_enabled [OF assms(1) a] severity_enabled [OF assms(2) b]
    using assms by (intro log_frame) simp_all
qed

lemma setter_frame:
  assumes "q \<noteq> p"
  shows "loggers (snd (callSetter op \<sigma> q)) ! p = loggers \<sigma> ! p
         \<and> length (loggers (snd (callSetter op \<sigma> q))) = length (loggers \<sigma>)
         \<and> arrays (snd (callSetter op \<sigma> q)) = arrays \<sigma>
         \<and> sinks (snd (callSetter op \<sigma> q)) = sinks \<sigma>
         \<and> ticks (snd (callSetter op \<sigma> q)) = ticks \<sigma>"
  using assms
  by (cases op)
     (simp_all add: SetLevel_def SetPrefix_def SetOutput_def EnableTimestamp_def
        DisableTimestamp_def EnableCaller_def DisableCaller_def SetTimeFormat_def
        SetTimeFunction_def receiver_def Lock_def Unlock_def emit_def mutate_def)

lemma With_result:
  assumes "p < length (loggers \<sigma>)"
    and "appendSlice E (arrays \<sigma>) (l_keyvals (loggers \<sigma> ! p)) ks = (h', s')"
  shows "With E \<sigma> p ks
           = (Returned (length (loggers \<sigma>)),
              \<sigma>\<lparr>loggers := loggers \<sigma>
                   @ [(loggers \<sigma> ! p)\<lparr>l_b := [], l_mu := nextMu \<sigma>, l_keyvals := s'\<rparr>],
                arrays := h', nextMu := Suc (nextMu \<sigma>)\<rparr>)"
  using assms by (simp add: With_def receiver_def Let_def)

lemma eventsOf_append: "trace \<sigma>' = trace \<sigma> @ es \<Longrightarrow> eventsOf \<sigma> \<sigma>' = es"
  by (simp add: eventsOf_def)

lemma log_keyvals:
  assumes "wfSlice h s"
  shows "\<exists>h' s' body. effectiveKeyvals E h s kvs = (h', s')
           \<and> elems h' s' = paddedKeyvals (elems h s) kvs
           \<and> writeKeyvals E nc (elems h' s') = Some body"
proof -
  obtain h' s' where e: "effectiveKeyvals E h s kvs = (h', s')"
    by (cases "effectiveKeyvals E h s kvs")
  from effectiveKeyvals_elems [OF assms e]
  have 1: "elems h' s' = paddedKeyvals (elems h s) kvs" and 2: "even (length (elems h' s'))"
    by (simp_all add: paddedKeyvals_def Let_def)
  from writeKeyvals_even [OF 2] obtain body where "writeKeyvals E nc (elems h' s') = Some body"
    by blast
  with e 1 show ?thesis by blast
qed

lemma setter_independent:
  assumes "q \<noteq> p" "p < length (loggers \<sigma>)"
  shows "loggers (snd (callSetter op \<sigma> q)) ! p = loggers \<sigma> ! p
         \<and> staticAttrs (snd (callSetter op \<sigma> q)) p = staticAttrs \<sigma> p
         \<and> fst (severity c E (snd (callSetter op \<sigma> q)) p msg kvs) = fst (severity c E \<sigma> p msg kvs)
         \<and> sinks (snd (severity c E (snd (callSetter op \<sigma> q)) p msg kvs))
             = sinks (snd (severity c E \<sigma> p msg kvs))"
proof -
  note f = setter_frame [OF assms(1), of op \<sigma>]
  from f assms(2) have "fst (severity c E (snd (callSetter op \<sigma> q)) p msg kvs) = fst (severity c E \<sigma> p msg kvs)
         \<and> sinks (snd (severity c E (snd (callSetter op \<sigma> q)) p msg kvs))
             = sinks (snd (severity c E \<sigma> p msg kvs))"
    by (intro severity_frame) simp_all
  with f show ?thesis by (simp add: staticAttrs_def)
qed

lemma batch_wf:
  "1 < length (loggers batchWorld) \<and> wfSlice (arrays batchWorld) (l_keyvals (loggers batchWorld ! 1))"
  by code_simp

lemma batch_logger:
  "loggers batchWorld ! 1
     = plainLogger\<lparr>l_b := [], l_mu := 1, l_keyvals := \<lparr>s_arr = 0, s_off = 0, s_len = 2, s_cap = 2\<rparr>\<rparr>
   \<and> length (loggers batchWorld) = 2 \<and> ticks batchWorld = 0
   \<and> sinks batchWorld = (\<lambda>w. []) \<and> trace batchWorld = []
   \<and> arrays batchWorld = [[AStr ''batch'', AInt 2]]"
  by (simp add: batchWorld_def With_def receiver_def Let_def plainWorld_def plainLogger_def
        appendSlice_def nilSlice_def plainEnv_def elems_def)

lemma discard_hyp:
  "0 < length (loggers discardWorld) \<and> l_w (loggers discardWorld ! 0) = Discard
   \<and> levelNum (l_level (loggers discardWorld ! 0)) \<le> levelNum ErrorLevel
   \<and> l_mu (loggers discardWorld ! 0) = 0"
  by (simp add: discardWorld_def plainWorld_def plainLogger_def)

subsection \<open>The lock discipline\<close>

lemma setters_exclusive:
  assumes "p < length (loggers \<sigma>)" "op \<noteq> CallDisableTimestamp"
  shows "exclusive (l_mu (loggers \<sigma> ! p)) p False (eventsOf \<sigma> (snd (callSetter op \<sigma> p)))"
  using assms
  by (cases op)
     (simp_all add: SetLevel_def SetPrefix_def SetOutput_def EnableTimestamp_def
        EnableCaller_def DisableCaller_def SetTimeFormat_def
        SetTimeFunction_def receiver_def Lock_def Unlock_def emit_def mutate_def eventsOf_def)

lemma DisableTimestamp_events:
  assumes "p < length (loggers \<sigma>)"
  shows "eventsOf \<sigma> (snd (DisableTimestamp \<sigma> p))
           = [EvMutate p, EvLock (l_mu (loggers \<sigma> ! p)), EvUnlock (l_mu (loggers \<sigma> ! p))]"
  using assms
  by (simp add: DisableTimestamp_def receiver_def Lock_def Unlock_def emit_def mutate_def eventsOf_def)

lemma log_exclusive:
  assumes "p < length (loggers \<sigma>)"
    and "l_w (loggers \<sigma> ! p) \<noteq> Discard" "l_w (loggers \<sigma> ! p) \<noteq> NilWriter"
    and "l_timeFunc (loggers \<sigma> ! p) = Some f"
    and "effectiveKeyvals E (arrays \<sigma>) (l_keyvals (loggers \<sigma> ! p)) kvs = (h', s')"
    and "writeKeyvals E (l_noColor (loggers \<sigma> ! p)) (elems h' s') = Some body"
  shows "exclusive (l_mu (loggers \<sigma> ! p)) p False (eventsOf \<sigma> (snd (log E \<sigma> p level msg kvs)))"
  unfolding log_ordinary [OF assms] by (simp add: eventsOf_def)

subsection \<open>The end of a record and the buffer\<close>

lemma trailingNewlines_snoc: "trailingNewlines (s @ [NL]) = Suc (trailingNewlines s)"
  by (simp add: trailingNewlines_def)

lemma trailingNewlines_zero: "s \<noteq> [] \<Longrightarrow> last s \<noteq> NL \<Longrightarrow> trailingNewlines s = 0"
  by (cases s rule: rev_cases) (simp_all add: trailingNewlines_def)

lemma valText_plain: "valText E True v \<noteq> []"
  by (simp add: valText_def Let_def)

lemma writeKeyval_last:
  assumes "valText E nc v \<noteq> []"
  shows "writeKeyval E nc k v \<noteq> [] \<and> last (writeKeyval E nc k v) \<noteq> NL"
proof (cases "NL \<in> set (valText E nc v)")
  case True
  then show ?thesis by (simp add: writeKeyval_def Let_def Contains_NL)
next
  case False
  with assms have "last (valText E nc v) \<noteq> NL" by (metis last_in_set)
  with False assms show ?thesis by (simp add: writeKeyval_def Let_def Contains_NL)
qed

lemma writeKeyvals_last:
  "writeKeyvals E nc xs = Some body \<Longrightarrow> xs \<noteq> [] \<Longrightarrow> valText E nc (last xs) \<noteq> []
   \<Longrightarrow> body \<noteq> [] \<and> last body \<noteq> NL"
proof (induction E nc xs arbitrary: body rule: writeKeyvals.induct)
  case (1 E nc)
  then show ?case by simp
next
  case (2 E nc k)
  then show ?case by simp
next
  case (3 E nc k v rest)
  from "3.prems"(1) obtain out where out: "writeKeyvals E nc rest = Some out"
    and body: "body = writeKeyval E nc k v @ out" by auto
  show ?case
  proof (cases "rest = []")
    case True
    with out have "out = []" by simp
    with body True "3.prems"(3) writeKeyval_last [of E nc v k] show ?thesis by simp
  next
    case False
    with "3.prems"(3) have "valText E nc (last rest) \<noteq> []" by simp
    from "3.IH" [OF out False this] body show ?thesis by simp
  qed
qed

lemma log_no_timeFunc:
  assumes "p < length (loggers \<sigma>)" "l_w (loggers \<sigma> ! p) \<noteq> Discard"
    "l_timeFunc (loggers \<sigma> ! p) = None"
  shows "log E \<sigma> p level msg kvs
           = (Panicked, \<sigma>\<lparr>trace := trace \<sigma> @ [EvRLock (l_mu (loggers \<sigma> ! p)),
                                               EvRUnlock (l_mu (loggers \<sigma> ! p))]\<rparr>)"
  using assms
  by (simp add: log_def receiver_def Let_def RLock_def RUnlock_def emit_def)

text \<open>
  \<open>With\<close> gives the derived logger an empty buffer and leaves the structs of the
  loggers that exist as they are; no setter touches a buffer.
\<close>

lemma With_buffer_empty:
  assumes "p < length (loggers \<sigma>)"
  shows "l_b (loggers (snd (With E \<sigma> p ks)) ! length (loggers \<sigma>)) = []
         \<and> (\<forall>q < length (loggers \<sigma>). loggers (snd (With E \<sigma> p ks)) ! q = loggers \<sigma> ! q)"
  using assms by (simp add: With_def receiver_def Let_def nth_append split: prod.splits)

lemma setter_buffer: "l_b (loggers (snd (callSetter op \<sigma> q)) ! p) = l_b (loggers \<sigma> ! p)"
  by (cases op; cases "p = q")
     (simp_all add: SetLevel_def SetPrefix_def SetOutput_def EnableTimestamp_def
        DisableTimestamp_def EnableCaller_def DisableCaller_def SetTimeFormat_def
        SetTimeFunction_def receiver_def Lock_def Unlock_def emit_def mutate_def)

section \<open>The logger: properties\<close>

text \<open>
  Claim C3, as the code has it.  Take the logger at a valid address whose buffer is
  empty, as \<open>With\<close> creates it and as every call leaves it, and a call of the severity
  method of level \<open>c\<close>.  If \<open>c\<close> is below the logger's level, the call returns and the
  world is as before but for the read lock and its release: no writer receives
  anything.  If \<open>c\<close> is at or above the logger's level, the writer is neither the
  discard writer nor nil, the time function is set and the keyvals slice is well
  formed, the call returns and the logger's writer receives exactly one more entry,
  in one \<open>Write\<close> call: the header, the rendered pairs of the padded sequence and the
  newline that \<open>log\<close> appends; no other writer receives anything, the structs of the
  loggers are as before and the buffer is empty again.  The entry ends in one more
  newline than the header and the pairs do: in exactly one when there is a pair and
  the text of the last value is not empty, which is so with colours off.  With no
  pair the entry is the header and the newline.  If the time function is nil instead,
  the call panics and no writer receives anything.
\<close>

theorem level_gating:
  assumes "p < length (loggers \<sigma>)" and "l_b (loggers \<sigma> ! p) = []"
  shows "(levelNum c < levelNum (l_level (loggers \<sigma> ! p)) \<longrightarrow>
            severity c E \<sigma> p msg kvs
              = (Returned (), \<sigma>\<lparr>trace := trace \<sigma> @ [EvRLock (l_mu (loggers \<sigma> ! p)),
                                                     EvRUnlock (l_mu (loggers \<sigma> ! p))]\<rparr>)
            \<and> sinks (snd (severity c E \<sigma> p msg kvs)) = sinks \<sigma>
            \<and> loggers (snd (severity c E \<sigma> p msg kvs)) = loggers \<sigma>
            \<and> eventsOf \<sigma> (snd (severity c E \<sigma> p msg kvs))
                = [EvRLock (l_mu (loggers \<sigma> ! p)), EvRUnlock (l_mu (loggers \<sigma> ! p))])
       \<and> (levelNum (l_level (loggers \<sigma> ! p)) \<le> levelNum c
            \<and> l_w (loggers \<sigma> ! p) \<noteq> Discard \<and> l_w (loggers \<sigma> ! p) \<noteq> NilWriter
            \<and> l_timeFunc (loggers \<sigma> ! p) = Some f
            \<and> wfSlice (arrays \<sigma>) (l_keyvals (loggers \<sigma> ! p)) \<longrightarrow>
            fst (severity c E \<sigma> p msg kvs) = Returned ()
            \<and> (\<exists>body.
                  writeKeyvals E (l_noColor (loggers \<sigma> ! p)) (paddedKeyvals (staticAttrs \<sigma> p) kvs)
                    = Some body
                  \<and> sinks (snd (severity c E \<sigma> p msg kvs))
                      = (sinks \<sigma>)(l_w (loggers \<sigma> ! p) :=
                           sinks \<sigma> (l_w (loggers \<sigma> ! p))
                             @ [header E (loggers \<sigma> ! p) (f (ticks \<sigma>)) c msg @ body @ [NL]])
                  \<and> trailingNewlines (header E (loggers \<sigma> ! p) (f (ticks \<sigma>)) c msg @ body @ [NL])
                      = Suc (trailingNewlines (header E (loggers \<sigma> ! p) (f (ticks \<sigma>)) c msg @ body))
                  \<and> (paddedKeyvals (staticAttrs \<sigma> p) kvs \<noteq> []
                       \<and> (l_noColor (loggers \<sigma> ! p)
                            \<or> valText E (l_noColor (loggers \<sigma> ! p))
                                 (last (paddedKeyvals (staticAttrs \<sigma> p) kvs)) \<noteq> []) \<longrightarrow>
                      trailingNewlines
                        (header E (loggers \<sigma> ! p) (f (ticks \<sigma>)) c msg @ body @ [NL]) = 1)
                  \<and> (paddedKeyvals (staticAttrs \<sigma> p) kvs = [] \<longrightarrow> body = []))
            \<and> loggers (snd (severity c E \<sigma> p msg kvs)) = loggers \<sigma>
            \<and> l_b (loggers (snd (severity c E \<sigma> p msg kvs)) ! p) = []
            \<and> eventsOf \<sigma> (snd (severity c E \<sigma> p msg kvs))
                = [EvRLock (l_mu (loggers \<sigma> ! p)), EvRUnlock (l_mu (loggers \<sigma> ! p)),
                   EvRLock (l_mu (loggers \<sigma> ! p)), EvRUnlock (l_mu (loggers \<sigma> ! p)),
                   EvTimeFunc p, EvLock (l_mu (loggers \<sigma> ! p)), EvMutate p,
                   EvWrite (l_w (loggers \<sigma> ! p)), EvMutate p,
                   EvUnlock (l_mu (loggers \<sigma> ! p))])
       \<and> (levelNum (l_level (loggers \<sigma> ! p)) \<le> levelNum c
            \<and> l_w (loggers \<sigma> ! p) \<noteq> Discard
            \<and> l_timeFunc (loggers \<sigma> ! p) = None \<longrightarrow>
            fst (severity c E \<sigma> p msg kvs) = Panicked
            \<and> sinks (snd (severity c E \<sigma> p msg kvs)) = sinks \<sigma>
            \<and> loggers (snd (severity c E \<sigma> p msg kvs)) = loggers \<sigma>)"
proof (intro conjI impI)
  assume "levelNum c < levelNum (l_level (loggers \<sigma> ! p))"
  note b = severity_below [OF assms(1) this, of E msg kvs]
  show "severity c E \<sigma> p msg kvs
              = (Returned (), \<sigma>\<lparr>trace := trace \<sigma> @ [EvRLock (l_mu (loggers \<sigma> ! p)),
                                                     EvRUnlock (l_mu (loggers \<sigma> ! p))]\<rparr>)"
    by (rule b)
  show "sinks (snd (severity c E \<sigma> p msg kvs)) = sinks \<sigma>" by (simp add: b)
  show "loggers (snd (severity c E \<sigma> p msg kvs)) = loggers \<sigma>" by (simp add: b)
  show "eventsOf \<sigma> (snd (severity c E \<sigma> p msg kvs))
          = [EvRLock (l_mu (loggers \<sigma> ! p)), EvRUnlock (l_mu (loggers \<sigma> ! p))]"
    by (simp add: b eventsOf_def)
next
  assume h: "levelNum (l_level (loggers \<sigma> ! p)) \<le> levelNum c
            \<and> l_w (loggers \<sigma> ! p) \<noteq> Discard \<and> l_w (loggers \<sigma> ! p) \<noteq> NilWriter
            \<and> l_timeFunc (loggers \<sigma> ! p) = Some f
            \<and> wfSlice (arrays \<sigma>) (l_keyvals (loggers \<sigma> ! p))"
  define \<sigma>1 where "\<sigma>1 = \<sigma>\<lparr>trace := trace \<sigma> @ [EvRLock (l_mu (loggers \<sigma> ! p)),
                                           EvRUnlock (l_mu (loggers \<sigma> ! p))]\<rparr>"
  define hdr where "hdr = header E (loggers \<sigma> ! p) (f (ticks \<sigma>)) c msg"
  have s: "severity c E \<sigma> p msg kvs = log E \<sigma>1 p c msg kvs"
    using severity_enabled [OF assms(1), of c E msg kvs] h by (simp add: \<sigma>1_def)
  from h log_keyvals [of "arrays \<sigma>" "l_keyvals (loggers \<sigma> ! p)" E kvs "l_noColor (loggers \<sigma> ! p)"]
  obtain h' s' body where
    e: "effectiveKeyvals E (arrays \<sigma>) (l_keyvals (loggers \<sigma> ! p)) kvs = (h', s')"
    and k: "elems h' s' = paddedKeyvals (staticAttrs \<sigma> p) kvs"
    and b: "writeKeyvals E (l_noColor (loggers \<sigma> ! p)) (elems h' s') = Some body"
    unfolding staticAttrs_def by blast
  have l: "log E \<sigma>1 p c msg kvs = (Returned (),
              \<sigma>1\<lparr>loggers := (loggers \<sigma>1)[p := (loggers \<sigma>1 ! p)\<lparr>l_b := []\<rparr>],
                arrays := h',
                sinks := (sinks \<sigma>1)(l_w (loggers \<sigma>1 ! p) :=
                   sinks \<sigma>1 (l_w (loggers \<sigma>1 ! p))
                     @ [l_b (loggers \<sigma>1 ! p)
                          @ header E (loggers \<sigma>1 ! p) (f (ticks \<sigma>1)) c msg @ body @ [NL]]),
                ticks := Suc (ticks \<sigma>1),
                trace := trace \<sigma>1 @ [EvRLock (l_mu (loggers \<sigma>1 ! p)), EvRUnlock (l_mu (loggers \<sigma>1 ! p)),
                                    EvTimeFunc p, EvLock (l_mu (loggers \<sigma>1 ! p)), EvMutate p,
                                    EvWrite (l_w (loggers \<sigma>1 ! p)), EvMutate p,
                                    EvUnlock (l_mu (loggers \<sigma>1 ! p))]\<rparr>)"
    using assms(1) h e b by (intro log_ordinary) (simp_all add: \<sigma>1_def)
  have same: "(loggers \<sigma>)[p := (loggers \<sigma> ! p)\<lparr>l_b := []\<rparr>] = loggers \<sigma>"
    using assms(2) by (metis list_update_id logger.surjective logger.update_convs(2))
  show "fst (severity c E \<sigma> p msg kvs) = Returned ()" by (simp add: s l)
  have out: "sinks (snd (severity c E \<sigma> p msg kvs))
                      = (sinks \<sigma>)(l_w (loggers \<sigma> ! p) :=
                           sinks \<sigma> (l_w (loggers \<sigma> ! p)) @ [hdr @ body @ [NL]])"
    using assms(2) by (simp add: s l, simp add: \<sigma>1_def hdr_def)
  have one: "trailingNewlines (hdr @ body @ [NL]) = 1"
    if t: "paddedKeyvals (staticAttrs \<sigma> p) kvs \<noteq> []
        \<and> (l_noColor (loggers \<sigma> ! p)
             \<or> valText E (l_noColor (loggers \<sigma> ! p))
                  (last (paddedKeyvals (staticAttrs \<sigma> p) kvs)) \<noteq> [])"
  proof -
    from t valText_plain [of E "last (paddedKeyvals (staticAttrs \<sigma> p) kvs)"]
    have "valText E (l_noColor (loggers \<sigma> ! p))
            (last (paddedKeyvals (staticAttrs \<sigma> p) kvs)) \<noteq> []"
      by (cases "l_noColor (loggers \<sigma> ! p)") simp_all
    with writeKeyvals_last [OF b] t k have "body \<noteq> []" "last body \<noteq> NL" by simp_all
    then have "trailingNewlines (hdr @ body) = 0" by (intro trailingNewlines_zero) simp_all
    with trailingNewlines_snoc [of "hdr @ body"] show ?thesis by simp
  qed
  have none: "body = []" if "paddedKeyvals (staticAttrs \<sigma> p) kvs = []"
    using b k that by simp
  show "\<exists>body.
                  writeKeyvals E (l_noColor (loggers \<sigma> ! p)) (paddedKeyvals (staticAttrs \<sigma> p) kvs)
                    = Some body
                  \<and> sinks (snd (severity c E \<sigma> p msg kvs))
                      = (sinks \<sigma>)(l_w (loggers \<sigma> ! p) :=
                           sinks \<sigma> (l_w (loggers \<sigma> ! p))
                             @ [header E (loggers \<sigma> ! p) (f (ticks \<sigma>)) c msg @ body @ [NL]])
                  \<and> trailingNewlines (header E (loggers \<sigma> ! p) (f (ticks \<sigma>)) c msg @ body @ [NL])
                      = Suc (trailingNewlines (header E (loggers \<sigma> ! p) (f (ticks \<sigma>)) c msg @ body))
                  \<and> (paddedKeyvals (staticAttrs \<sigma> p) kvs \<noteq> []
                       \<and> (l_noColor (loggers \<sigma> ! p)
                            \<or> valText E (l_noColor (loggers \<sigma> ! p))
                                 (last (paddedKeyvals (staticAttrs \<sigma> p) kvs)) \<noteq> []) \<longrightarrow>
                      trailingNewlines
                        (header E (loggers \<sigma> ! p) (f (ticks \<sigma>)) c msg @ body @ [NL]) = 1)
                  \<and> (paddedKeyvals (staticAttrs \<sigma> p) kvs = [] \<longrightarrow> body = [])"
    unfolding hdr_def [symmetric]
    using b k out one none trailingNewlines_snoc [of "hdr @ body"]
    by (intro exI [of _ body]) simp
  show "loggers (snd (severity c E \<sigma> p msg kvs)) = loggers \<sigma>"
    using same by (simp add: s l, simp add: \<sigma>1_def)
  then show "l_b (loggers (snd (severity c E \<sigma> p msg kvs)) ! p) = []"
    using assms(2) by simp
  show "eventsOf \<sigma> (snd (severity c E \<sigma> p msg kvs))
                = [EvRLock (l_mu (loggers \<sigma> ! p)), EvRUnlock (l_mu (loggers \<sigma> ! p)),
                   EvRLock (l_mu (loggers \<sigma> ! p)), EvRUnlock (l_mu (loggers \<sigma> ! p)),
                   EvTimeFunc p, EvLock (l_mu (loggers \<sigma> ! p)), EvMutate p,
                   EvWrite (l_w (loggers \<sigma> ! p)), EvMutate p,
                   EvUnlock (l_mu (loggers \<sigma> ! p))]"
    by (simp add: s l, simp add: \<sigma>1_def eventsOf_def)
next
  assume n: "levelNum (l_level (loggers \<sigma> ! p)) \<le> levelNum c
            \<and> l_w (loggers \<sigma> ! p) \<noteq> Discard
            \<and> l_timeFunc (loggers \<sigma> ! p) = None"
  define \<sigma>1 where "\<sigma>1 = \<sigma>\<lparr>trace := trace \<sigma> @ [EvRLock (l_mu (loggers \<sigma> ! p)),
                                           EvRUnlock (l_mu (loggers \<sigma> ! p))]\<rparr>"
  have s: "severity c E \<sigma> p msg kvs = log E \<sigma>1 p c msg kvs"
    using severity_enabled [OF assms(1), of c E msg kvs] n by (simp add: \<sigma>1_def)
  have l: "log E \<sigma>1 p c msg kvs
             = (Panicked, \<sigma>1\<lparr>trace := trace \<sigma>1 @ [EvRLock (l_mu (loggers \<sigma>1 ! p)),
                                                   EvRUnlock (l_mu (loggers \<sigma>1 ! p))]\<rparr>)"
    using assms(1) n by (intro log_no_timeFunc) (simp_all add: \<sigma>1_def)
  show "fst (severity c E \<sigma> p msg kvs) = Panicked" by (simp add: s l)
  show "sinks (snd (severity c E \<sigma> p msg kvs)) = sinks \<sigma>" by (simp add: s l) (simp add: \<sigma>1_def)
  show "loggers (snd (severity c E \<sigma> p msg kvs)) = loggers \<sigma>"
    by (simp add: s l) (simp add: \<sigma>1_def)
qed

text \<open>
  The theorem at the derived logger of \<open>batchWorld\<close>, whose level is \<open>InfoLevel\<close>:
  \<open>Debug("x")\<close> writes nothing, \<open>Warn("hot", "t", 3)\<close> writes one record that ends in
  one newline and leaves the loggers as they were, so that a second call writes a
  second record of its own; and at the logger of \<open>plainWorld\<close> with its time function
  set to nil, where \<open>Info("m")\<close> panics and writes nothing.
\<close>

theorem level_gating_witness:
  "sinks (snd (severity DebugLevel plainEnv batchWorld 1 (AStr ''x'') [])) = sinks batchWorld
   \<and> eventsOf batchWorld (snd (severity DebugLevel plainEnv batchWorld 1 (AStr ''x'') []))
       = [EvRLock 1, EvRUnlock 1]
   \<and> sinks (snd (severity WarnLevel plainEnv batchWorld 1 (AStr ''hot'') [AStr ''t'', AInt 3]))
       = (sinks batchWorld)(Sink 0 := [''WARN hot batch=2 t=3'' @ [NL]])
   \<and> trailingNewlines (''WARN hot batch=2 t=3'' @ [NL]) = 1
   \<and> loggers (snd (severity WarnLevel plainEnv batchWorld 1 (AStr ''hot'') [AStr ''t'', AInt 3]))
       = loggers batchWorld
   \<and> sinks (snd (severity WarnLevel plainEnv
                   (snd (severity WarnLevel plainEnv batchWorld 1 (AStr ''hot'') [AStr ''t'', AInt 3]))
                   1 (AStr ''again'') [])) (Sink 0)
       = [''WARN hot batch=2 t=3'' @ [NL], ''WARN again batch=2'' @ [NL]]
   \<and> fst (severity InfoLevel plainEnv
             (plainWorld\<lparr>loggers := [plainLogger\<lparr>l_timeFunc := None\<rparr>]\<rparr>) 0 (AStr ''m'') [])
       = Panicked
   \<and> sinks (snd (severity InfoLevel plainEnv
                   (plainWorld\<lparr>loggers := [plainLogger\<lparr>l_timeFunc := None\<rparr>]\<rparr>) 0 (AStr ''m'') []))
       = sinks plainWorld"
proof -
  have p: "1 < length (loggers batchWorld)" using batch_wf by simp
  have lg: "l_level (loggers batchWorld ! 1) = InfoLevel" "l_mu (loggers batchWorld ! 1) = 1"
    "l_w (loggers batchWorld ! 1) = Sink 0" "l_b (loggers batchWorld ! 1) = []"
    "l_timeFunc (loggers batchWorld ! 1) = Some (\<lambda>n. int n)"
    "l_noColor (loggers batchWorld ! 1) = True"
    "sinks batchWorld (Sink 0) = []"
    using batch_logger by (simp_all add: plainLogger_def)
  have b: "l_b (loggers batchWorld ! 1) = []" by (rule lg(4))
  have lo: "levelNum DebugLevel < levelNum (l_level (loggers batchWorld ! 1))"
    using lg by simp
  have hi: "levelNum (l_level (loggers batchWorld ! 1)) \<le> levelNum WarnLevel
            \<and> l_w (loggers batchWorld ! 1) \<noteq> Discard \<and> l_w (loggers batchWorld ! 1) \<noteq> NilWriter
            \<and> l_timeFunc (loggers batchWorld ! 1) = Some (\<lambda>n. int n)
            \<and> wfSlice (arrays batchWorld) (l_keyvals (loggers batchWorld ! 1))"
    using batch_wf lg by simp
  have hd: "header plainEnv (loggers batchWorld ! 1) (int (ticks batchWorld)) WarnLevel (AStr ''hot'')
            = ''WARN hot''"
    by code_simp
  have pk: "paddedKeyvals (staticAttrs batchWorld 1) [AStr ''t'', AInt 3]
            = [AStr ''batch'', AInt 2, AStr ''t'', AInt 3]"
    by code_simp
  have wk: "writeKeyvals plainEnv True [AStr ''batch'', AInt 2, AStr ''t'', AInt 3]
            = Some '' batch=2 t=3''"
    by code_simp
  have two: "sinks (snd (severity WarnLevel plainEnv
                   (snd (severity WarnLevel plainEnv batchWorld 1 (AStr ''hot'') [AStr ''t'', AInt 3]))
                   1 (AStr ''again'') [])) (Sink 0)
       = [''WARN hot batch=2 t=3'' @ [NL], ''WARN again batch=2'' @ [NL]]"
    by code_simp
  from level_gating [OF p b, where c = DebugLevel and E = plainEnv and msg = "AStr ''x''"
      and kvs = "[]"] lo
  have 1: "sinks (snd (severity DebugLevel plainEnv batchWorld 1 (AStr ''x'') [])) = sinks batchWorld"
    and 2: "eventsOf batchWorld (snd (severity DebugLevel plainEnv batchWorld 1 (AStr ''x'') []))
       = [EvRLock 1, EvRUnlock 1]"
    using lg by (simp_all add: eventsOf_def)
  from level_gating [OF p b, where c = WarnLevel and f = "\<lambda>n. int n" and E = plainEnv
      and msg = "AStr ''hot''" and kvs = "[AStr ''t'', AInt 3]"] hi
  obtain body where
    bd: "writeKeyvals plainEnv (l_noColor (loggers batchWorld ! 1))
           (paddedKeyvals (staticAttrs batchWorld 1) [AStr ''t'', AInt 3]) = Some body"
    and sk: "sinks (snd (severity WarnLevel plainEnv batchWorld 1 (AStr ''hot'') [AStr ''t'', AInt 3]))
         = (sinks batchWorld)(l_w (loggers batchWorld ! 1) :=
             sinks batchWorld (l_w (loggers batchWorld ! 1))
               @ [header plainEnv (loggers batchWorld ! 1) (int (ticks batchWorld)) WarnLevel (AStr ''hot'')
                    @ body @ [NL]])"
    and tn: "paddedKeyvals (staticAttrs batchWorld 1) [AStr ''t'', AInt 3] \<noteq> []
               \<and> (l_noColor (loggers batchWorld ! 1)
                    \<or> valText plainEnv (l_noColor (loggers batchWorld ! 1))
                         (last (paddedKeyvals (staticAttrs batchWorld 1) [AStr ''t'', AInt 3])) \<noteq> []) \<longrightarrow>
             trailingNewlines
               (header plainEnv (loggers batchWorld ! 1) (int (ticks batchWorld)) WarnLevel (AStr ''hot'')
                  @ body @ [NL]) = 1"
    and lgs: "loggers (snd (severity WarnLevel plainEnv batchWorld 1 (AStr ''hot'') [AStr ''t'', AInt 3]))
       = loggers batchWorld"
    by blast
  from bd have body: "body = '' batch=2 t=3''" unfolding lg pk wk by simp
  from sk have 3: "sinks (snd (severity WarnLevel plainEnv batchWorld 1 (AStr ''hot'') [AStr ''t'', AInt 3]))
       = (sinks batchWorld)(Sink 0 := [''WARN hot batch=2 t=3'' @ [NL]])"
    unfolding lg hd body by simp
  from tn have 4: "trailingNewlines (''WARN hot batch=2 t=3'' @ [NL]) = 1"
    unfolding lg hd body pk by simp
  define \<sigma>n where "\<sigma>n = plainWorld\<lparr>loggers := [plainLogger\<lparr>l_timeFunc := None\<rparr>]\<rparr>"
  have pn: "0 < length (loggers \<sigma>n)" and bn: "l_b (loggers \<sigma>n ! 0) = []"
    and hn: "levelNum (l_level (loggers \<sigma>n ! 0)) \<le> levelNum InfoLevel
             \<and> l_w (loggers \<sigma>n ! 0) \<noteq> Discard \<and> l_timeFunc (loggers \<sigma>n ! 0) = None"
    and sn: "sinks \<sigma>n = sinks plainWorld"
    by (simp_all add: \<sigma>n_def plainWorld_def plainLogger_def)
  from level_gating [OF pn bn, where c = InfoLevel and E = plainEnv and msg = "AStr ''m''"
      and kvs = "[]"] hn sn
  have 5: "fst (severity InfoLevel plainEnv \<sigma>n 0 (AStr ''m'') []) = Panicked"
    and 6: "sinks (snd (severity InfoLevel plainEnv \<sigma>n 0 (AStr ''m'') [])) = sinks plainWorld"
    by simp_all
  from 1 2 3 4 lgs two 5 6 show ?thesis unfolding \<sigma>n_def by blast
qed

text \<open>
  Claim C3 as stated has every record end in a single newline, for every ordinary
  writer.  On the logger of \<open>plainWorld\<close>, whose level is \<open>InfoLevel\<close> and whose
  writer is an ordinary one, \<open>Info\<close> with the message \<open>m\<close> followed by a newline writes a
  record that ends in two newlines;
  and with the time function set to nil \<open>Info("m")\<close> panics and writes no record.
\<close>

theorem level_gating_counterexample:
  "levelNum (l_level (loggers plainWorld ! 0)) \<le> levelNum InfoLevel
   \<and> l_w (loggers plainWorld ! 0) = Sink 0
   \<and> sinks (snd (Info plainEnv plainWorld 0 (AStr ''m\<newline>'') [])) (Sink 0) = [''INFO m'' @ [NL, NL]]
   \<and> trailingNewlines (''INFO m'' @ [NL, NL]) = 2
   \<and> fst (Info plainEnv (plainWorld\<lparr>loggers := [plainLogger\<lparr>l_timeFunc := None\<rparr>]\<rparr>) 0 (AStr ''m'') [])
       = Panicked
   \<and> sinks (snd (Info plainEnv (plainWorld\<lparr>loggers := [plainLogger\<lparr>l_timeFunc := None\<rparr>]\<rparr>) 0
                   (AStr ''m'') [])) (Sink 0) = []"
  by code_simp

text \<open>
  Claim C5.  For a logger with a well-formed keyvals slice, the sequence that \<open>log\<close>
  builds is the static attributes in order, then the keyvals of the call in order,
  then one \<open>MISSING_VALUE\<close> if the count of those is odd.  Its length is even, so the
  loop over the pairs never reads past the end, and the record that the writer receives
  renders exactly the pairs of this sequence.
\<close>

theorem effective_keyvals:
  assumes "p < length (loggers \<sigma>)" "wfSlice (arrays \<sigma>) (l_keyvals (loggers \<sigma> ! p))"
  shows "\<exists>h' s' body.
           effectiveKeyvals E (arrays \<sigma>) (l_keyvals (loggers \<sigma> ! p)) kvs = (h', s')
           \<and> elems h' s' = paddedKeyvals (staticAttrs \<sigma> p) kvs
           \<and> paddedKeyvals (staticAttrs \<sigma> p) kvs
               = staticAttrs \<sigma> p @ kvs
                   @ (if odd (length (staticAttrs \<sigma> p @ kvs)) then [AStr ''MISSING_VALUE''] else [])
           \<and> even (length (paddedKeyvals (staticAttrs \<sigma> p) kvs))
           \<and> writeKeyvals E (l_noColor (loggers \<sigma> ! p)) (paddedKeyvals (staticAttrs \<sigma> p) kvs)
               = Some body
           \<and> (l_w (loggers \<sigma> ! p) \<noteq> Discard \<and> l_w (loggers \<sigma> ! p) \<noteq> NilWriter
                \<and> l_timeFunc (loggers \<sigma> ! p) = Some f \<longrightarrow>
              sinks (snd (log E \<sigma> p level msg kvs))
                = (sinks \<sigma>)(l_w (loggers \<sigma> ! p) :=
                     sinks \<sigma> (l_w (loggers \<sigma> ! p))
                       @ [l_b (loggers \<sigma> ! p)
                            @ header E (loggers \<sigma> ! p) (f (ticks \<sigma>)) level msg @ body @ [NL]]))"
proof -
  from log_keyvals [OF assms(2), of E kvs "l_noColor (loggers \<sigma> ! p)"]
  obtain h' s' body where
    e: "effectiveKeyvals E (arrays \<sigma>) (l_keyvals (loggers \<sigma> ! p)) kvs = (h', s')"
    and k: "elems h' s' = paddedKeyvals (staticAttrs \<sigma> p) kvs"
    and b: "writeKeyvals E (l_noColor (loggers \<sigma> ! p)) (elems h' s') = Some body"
    unfolding staticAttrs_def by blast
  have ev: "even (length (paddedKeyvals (staticAttrs \<sigma> p) kvs))"
    using effectiveKeyvals_elems [OF assms(2) e] k by simp
  have pk: "paddedKeyvals (staticAttrs \<sigma> p) kvs
               = staticAttrs \<sigma> p @ kvs
                   @ (if odd (length (staticAttrs \<sigma> p @ kvs)) then [AStr ''MISSING_VALUE''] else [])"
    by (simp add: paddedKeyvals_def Let_def)
  have out: "sinks (snd (log E \<sigma> p level msg kvs))
                = (sinks \<sigma>)(l_w (loggers \<sigma> ! p) :=
                     sinks \<sigma> (l_w (loggers \<sigma> ! p))
                       @ [l_b (loggers \<sigma> ! p)
                            @ header E (loggers \<sigma> ! p) (f (ticks \<sigma>)) level msg @ body @ [NL]])"
    if "l_w (loggers \<sigma> ! p) \<noteq> Discard \<and> l_w (loggers \<sigma> ! p) \<noteq> NilWriter
                \<and> l_timeFunc (loggers \<sigma> ! p) = Some f"
    using log_ordinary [OF assms(1) _ _ _ e b, of f level msg] that by simp
  from e k b ev pk out show ?thesis
    by (intro exI [of _ h'] exI [of _ s'] exI [of _ body]) (simp only: simp_thms, blast)
qed

text \<open>
  The theorem at the derived logger of \<open>batchWorld\<close> and the call \<open>Info("x", "onlykey")\<close>.
\<close>

theorem effective_keyvals_witness:
  "staticAttrs batchWorld 1 = [AStr ''batch'', AInt 2]
   \<and> (\<exists>h' s' body.
         effectiveKeyvals plainEnv (arrays batchWorld) (l_keyvals (loggers batchWorld ! 1)) [AStr ''onlykey'']
           = (h', s')
         \<and> elems h' s' = [AStr ''batch'', AInt 2, AStr ''onlykey'', AStr ''MISSING_VALUE'']
         \<and> writeKeyvals plainEnv True [AStr ''batch'', AInt 2, AStr ''onlykey'', AStr ''MISSING_VALUE'']
             = Some body
         \<and> sinks (snd (log plainEnv batchWorld 1 InfoLevel (AStr ''x'') [AStr ''onlykey'']))
             = (sinks batchWorld)(Sink 0 := [''INFO x'' @ body @ [NL]]))
   \<and> sinks (snd (log plainEnv batchWorld 1 InfoLevel (AStr ''x'') [AStr ''onlykey''])) (Sink 0)
       = [''INFO x batch=2 onlykey=MISSING_VALUE'' @ [NL]]"
proof -
  have p: "1 < length (loggers batchWorld)"
    and wf: "wfSlice (arrays batchWorld) (l_keyvals (loggers batchWorld ! 1))"
    using batch_wf by simp_all
  have st: "staticAttrs batchWorld 1 = [AStr ''batch'', AInt 2]" by code_simp
  have lg: "l_w (loggers batchWorld ! 1) = Sink 0" "l_timeFunc (loggers batchWorld ! 1) = Some (\<lambda>n. int n)"
    "l_noColor (loggers batchWorld ! 1) = True" "l_b (loggers batchWorld ! 1) = []"
    "sinks batchWorld (Sink 0) = []"
    by (simp_all add: batchWorld_def With_def receiver_def Let_def plainWorld_def plainLogger_def
          split: prod.splits)
  have hd: "header plainEnv (loggers batchWorld ! 1) (int (ticks batchWorld)) InfoLevel (AStr ''x'') = ''INFO x''"
    by code_simp
  have ev: "sinks (snd (log plainEnv batchWorld 1 InfoLevel (AStr ''x'') [AStr ''onlykey''])) (Sink 0)
       = [''INFO x batch=2 onlykey=MISSING_VALUE'' @ [NL]]"
    by code_simp
  from effective_keyvals [OF p wf, where E = plainEnv and kvs = "[AStr ''onlykey'']"
      and f = "\<lambda>n. int n" and level = InfoLevel and msg = "AStr ''x''"]
  obtain h' s' body where
    "effectiveKeyvals plainEnv (arrays batchWorld) (l_keyvals (loggers batchWorld ! 1)) [AStr ''onlykey'']
       = (h', s')"
    "elems h' s' = paddedKeyvals (staticAttrs batchWorld 1) [AStr ''onlykey'']"
    "writeKeyvals plainEnv (l_noColor (loggers batchWorld ! 1))
       (paddedKeyvals (staticAttrs batchWorld 1) [AStr ''onlykey'']) = Some body"
    "l_w (loggers batchWorld ! 1) \<noteq> Discard \<and> l_w (loggers batchWorld ! 1) \<noteq> NilWriter
       \<and> l_timeFunc (loggers batchWorld ! 1) = Some (\<lambda>n. int n) \<longrightarrow>
     sinks (snd (log plainEnv batchWorld 1 InfoLevel (AStr ''x'') [AStr ''onlykey'']))
       = (sinks batchWorld)(l_w (loggers batchWorld ! 1) :=
            sinks batchWorld (l_w (loggers batchWorld ! 1))
              @ [l_b (loggers batchWorld ! 1)
                   @ header plainEnv (loggers batchWorld ! 1) (int (ticks batchWorld)) InfoLevel (AStr ''x'')
                   @ body @ [NL]])"
    by blast
  then have "effectiveKeyvals plainEnv (arrays batchWorld) (l_keyvals (loggers batchWorld ! 1)) [AStr ''onlykey'']
           = (h', s')
         \<and> elems h' s' = [AStr ''batch'', AInt 2, AStr ''onlykey'', AStr ''MISSING_VALUE'']
         \<and> writeKeyvals plainEnv True [AStr ''batch'', AInt 2, AStr ''onlykey'', AStr ''MISSING_VALUE'']
             = Some body
         \<and> sinks (snd (log plainEnv batchWorld 1 InfoLevel (AStr ''x'') [AStr ''onlykey'']))
             = (sinks batchWorld)(Sink 0 := [''INFO x'' @ body @ [NL]])"
    using st lg hd by (simp add: paddedKeyvals_def)
  with st ev show ?thesis by blast
qed

text \<open>
  What \<open>With\<close> does in the world it returns.  On a logger with a well-formed keyvals
  slice it returns a new address.  The static attributes of the logger there are
  those of the parent followed by the given keyvals; the parent's struct and static
  attributes are as before.  In that world, a call of any setter on the derived
  logger leaves the parent's struct and static attributes as they are, and every
  severity call on the parent has the same outcome and the same effect on the writers
  as without the setter call; and the same with the parent and the derived logger
  exchanged.  This says nothing of calls of \<open>With\<close> or of a severity method made
  later on the parent or on the derived logger.
\<close>

lemma With_then_setters:
  assumes "p < length (loggers \<sigma>)" "wfSlice (arrays \<sigma>) (l_keyvals (loggers \<sigma> ! p))"
  shows "\<exists>\<sigma>'. With E \<sigma> p ks = (Returned (length (loggers \<sigma>)), \<sigma>')
           \<and> staticAttrs \<sigma>' (length (loggers \<sigma>)) = staticAttrs \<sigma> p @ ks
           \<and> loggers \<sigma>' ! p = loggers \<sigma> ! p
           \<and> staticAttrs \<sigma>' p = staticAttrs \<sigma> p
           \<and> (\<forall>op c msg kvs.
                 loggers (snd (callSetter op \<sigma>' (length (loggers \<sigma>)))) ! p = loggers \<sigma>' ! p
                 \<and> staticAttrs (snd (callSetter op \<sigma>' (length (loggers \<sigma>)))) p = staticAttrs \<sigma>' p
                 \<and> fst (severity c E (snd (callSetter op \<sigma>' (length (loggers \<sigma>)))) p msg kvs)
                     = fst (severity c E \<sigma>' p msg kvs)
                 \<and> sinks (snd (severity c E (snd (callSetter op \<sigma>' (length (loggers \<sigma>)))) p msg kvs))
                     = sinks (snd (severity c E \<sigma>' p msg kvs))
                 \<and> loggers (snd (callSetter op \<sigma>' p)) ! length (loggers \<sigma>)
                     = loggers \<sigma>' ! length (loggers \<sigma>)
                 \<and> staticAttrs (snd (callSetter op \<sigma>' p)) (length (loggers \<sigma>))
                     = staticAttrs \<sigma>' (length (loggers \<sigma>))
                 \<and> fst (severity c E (snd (callSetter op \<sigma>' p)) (length (loggers \<sigma>)) msg kvs)
                     = fst (severity c E \<sigma>' (length (loggers \<sigma>)) msg kvs)
                 \<and> sinks (snd (severity c E (snd (callSetter op \<sigma>' p)) (length (loggers \<sigma>)) msg kvs))
                     = sinks (snd (severity c E \<sigma>' (length (loggers \<sigma>)) msg kvs)))"
proof -
  obtain h' s' where a: "appendSlice E (arrays \<sigma>) (l_keyvals (loggers \<sigma> ! p)) ks = (h', s')"
    by (cases "appendSlice E (arrays \<sigma>) (l_keyvals (loggers \<sigma> ! p)) ks")
  define d where "d = length (loggers \<sigma>)"
  define \<sigma>' where "\<sigma>' = \<sigma>\<lparr>loggers := loggers \<sigma>
                   @ [(loggers \<sigma> ! p)\<lparr>l_b := [], l_mu := nextMu \<sigma>, l_keyvals := s'\<rparr>],
                arrays := h', nextMu := Suc (nextMu \<sigma>)\<rparr>"
  have w: "With E \<sigma> p ks = (Returned d, \<sigma>')"
    unfolding d_def \<sigma>'_def by (rule With_result [OF assms(1) a])
  have dp: "d \<noteq> p" "p \<noteq> d" using assms(1) by (simp_all add: d_def)
  have len: "p < length (loggers \<sigma>')" "d < length (loggers \<sigma>')"
    using assms(1) by (simp_all add: \<sigma>'_def d_def)
  have 1: "staticAttrs \<sigma>' d = staticAttrs \<sigma> p @ ks"
    using appendSlice_elems [OF assms(2) a] by (simp add: staticAttrs_def \<sigma>'_def d_def)
  have 2: "loggers \<sigma>' ! p = loggers \<sigma> ! p"
    using assms(1) by (simp add: \<sigma>'_def nth_append)
  have 3: "staticAttrs \<sigma>' p = staticAttrs \<sigma> p"
    using appendSlice_keeps [OF assms(2) a] 2 by (simp add: staticAttrs_def) (simp add: \<sigma>'_def)
  from w 1 2 3 setter_independent [OF dp(1) len(1)] setter_independent [OF dp(2) len(2)]
  show ?thesis unfolding d_def [symmetric] by blast
qed

text \<open>
  Claim C6 does not hold of \<open>With\<close>.  The derived logger gets a struct, a lock and a
  buffer of its own, but its keyvals are \<open>append(l.keyvals, keyvals...)\<close>, which
  writes into the backing array of the parent's slice whenever that has room, and
  \<open>log\<close> appends to \<open>l.keyvals\<close> in the same way.  In \<open>aliasWorld\<close> the loggers at
  \<open>2\<close> and \<open>3\<close> are a parent with the attributes \<open>a\<close> to \<open>d\<close> and the logger derived from
  it with \<open>e=5\<close>; both slices lie on array \<open>1\<close>, of capacity 12.  The derived logger
  writes \<open>e=5\<close> at first.  After \<open>Info("m", "k", "v")\<close> on the parent, its static
  attributes end in \<open>k\<close>, \<open>v\<close> in place of \<open>e\<close>, \<open>5\<close>, and its next record says \<open>k=v\<close>.
  After \<open>With("z", 9)\<close> on the parent they end in \<open>z\<close>, \<open>9\<close>.  So the static attributes
  of a derived logger do not stay the parent's followed by the given ones, and a call
  on the parent changes the output of the derived logger.
\<close>

theorem With_shares_backing_array:
  "staticAttrs aliasWorld 2
     = [AStr ''a'', AInt 1, AStr ''b'', AInt 2, AStr ''c'', AInt 3, AStr ''d'', AInt 4]
   \<and> staticAttrs aliasWorld 3
     = [AStr ''a'', AInt 1, AStr ''b'', AInt 2, AStr ''c'', AInt 3, AStr ''d'', AInt 4,
        AStr ''e'', AInt 5]
   \<and> l_keyvals (loggers aliasWorld ! 2) = \<lparr>s_arr = 1, s_off = 0, s_len = 8, s_cap = 12\<rparr>
   \<and> l_keyvals (loggers aliasWorld ! 3) = \<lparr>s_arr = 1, s_off = 0, s_len = 10, s_cap = 12\<rparr>
   \<and> sinks (snd (Info plainEnv aliasWorld 3 (AStr ''x'') [])) (Sink 0)
     = [''INFO x a=1 b=2 c=3 d=4 e=5'' @ [NL]]
   \<and> staticAttrs (snd (Info plainEnv aliasWorld 2 (AStr ''m'') [AStr ''k'', AStr ''v''])) 3
     = [AStr ''a'', AInt 1, AStr ''b'', AInt 2, AStr ''c'', AInt 3, AStr ''d'', AInt 4,
        AStr ''k'', AStr ''v'']
   \<and> sinks (snd (Info plainEnv
                   (snd (Info plainEnv aliasWorld 2 (AStr ''m'') [AStr ''k'', AStr ''v'']))
                   3 (AStr ''x'') [])) (Sink 0)
     = [''INFO m a=1 b=2 c=3 d=4 k=v'' @ [NL], ''INFO x a=1 b=2 c=3 d=4 k=v'' @ [NL]]
   \<and> staticAttrs (snd (With plainEnv aliasWorld 2 [AStr ''z'', AInt 9])) 3
     = [AStr ''a'', AInt 1, AStr ''b'', AInt 2, AStr ''c'', AInt 3, AStr ''d'', AInt 4,
        AStr ''z'', AInt 9]"
  by code_simp

text \<open>
  Claim C8 does not hold of \<open>DisableTimestamp\<close>.  It assigns \<open>l.timestamp\<close> before it
  takes the lock: on the logger of \<open>plainWorld\<close> the events of the call are the
  mutation, then the lock, then the unlock, which is not the lock discipline.
  \<open>EnableTimestamp\<close> on the same logger keeps it, as every other setter and \<open>log\<close> do
  (\<open>setters_exclusive\<close>, \<open>log_exclusive\<close>).
\<close>

theorem DisableTimestamp_not_exclusive:
  "eventsOf plainWorld (snd (DisableTimestamp plainWorld 0)) = [EvMutate 0, EvLock 0, EvUnlock 0]
   \<and> l_timestamp (loggers (snd (DisableTimestamp (snd (EnableTimestamp plainWorld 0)) 0)) ! 0) = False
   \<and> exclusive (l_mu (loggers plainWorld ! 0)) 0 False
        (eventsOf plainWorld (snd (DisableTimestamp plainWorld 0))) = False
   \<and> exclusive (l_mu (loggers plainWorld ! 0)) 0 False
        (eventsOf plainWorld (snd (EnableTimestamp plainWorld 0))) = True"
  by code_simp

text \<open>
  Claim C10.  When the writer of the logger is the discard writer, a severity call at
  an enabled level returns and leaves the world as it was but for four events: the
  read lock and its release in the severity method, and again in \<open>log\<close>.  The time
  function is not called, the exclusive lock is not taken, and neither the buffer nor
  any field of the logger is changed.
\<close>

theorem discard_sink:
  assumes "p < length (loggers \<sigma>)" "l_w (loggers \<sigma> ! p) = Discard"
    and "levelNum (l_level (loggers \<sigma> ! p)) \<le> levelNum c"
  shows "severity c E \<sigma> p msg kvs
           = (Returned (),
              \<sigma>\<lparr>trace := trace \<sigma> @ [EvRLock (l_mu (loggers \<sigma> ! p)), EvRUnlock (l_mu (loggers \<sigma> ! p)),
                                    EvRLock (l_mu (loggers \<sigma> ! p)), EvRUnlock (l_mu (loggers \<sigma> ! p))]\<rparr>)
         \<and> EvTimeFunc p \<notin> set (eventsOf \<sigma> (snd (severity c E \<sigma> p msg kvs)))
         \<and> EvLock (l_mu (loggers \<sigma> ! p)) \<notin> set (eventsOf \<sigma> (snd (severity c E \<sigma> p msg kvs)))
         \<and> EvMutate p \<notin> set (eventsOf \<sigma> (snd (severity c E \<sigma> p msg kvs)))
         \<and> loggers (snd (severity c E \<sigma> p msg kvs)) = loggers \<sigma>
         \<and> ticks (snd (severity c E \<sigma> p msg kvs)) = ticks \<sigma>
         \<and> sinks (snd (severity c E \<sigma> p msg kvs)) = sinks \<sigma>"
proof -
  define \<sigma>1 where "\<sigma>1 = \<sigma>\<lparr>trace := trace \<sigma> @ [EvRLock (l_mu (loggers \<sigma> ! p)),
                                           EvRUnlock (l_mu (loggers \<sigma> ! p))]\<rparr>"
  have s: "severity c E \<sigma> p msg kvs = log E \<sigma>1 p c msg kvs"
    using severity_enabled [OF assms(1,3), of E msg kvs] by (simp add: \<sigma>1_def)
  have "log E \<sigma>1 p c msg kvs
          = (Returned (), \<sigma>1\<lparr>trace := trace \<sigma>1 @ [EvRLock (l_mu (loggers \<sigma>1 ! p)),
                                                  EvRUnlock (l_mu (loggers \<sigma>1 ! p))]\<rparr>)"
    using assms by (intro log_discard) (simp_all add: \<sigma>1_def)
  with s have r: "severity c E \<sigma> p msg kvs
           = (Returned (),
              \<sigma>\<lparr>trace := trace \<sigma> @ [EvRLock (l_mu (loggers \<sigma> ! p)), EvRUnlock (l_mu (loggers \<sigma> ! p)),
                                    EvRLock (l_mu (loggers \<sigma> ! p)), EvRUnlock (l_mu (loggers \<sigma> ! p))]\<rparr>)"
    by (simp add: \<sigma>1_def)
  show ?thesis unfolding r by (simp add: eventsOf_def)
qed

text \<open>
  The theorem at an \<open>Error\<close> call on the logger of \<open>discardWorld\<close>.
\<close>

theorem discard_sink_witness:
  "severity ErrorLevel plainEnv discardWorld 0 (AStr ''boom'') [AStr ''k'', AInt 1]
     = (Returned (), discardWorld\<lparr>trace := [EvRLock 0, EvRUnlock 0, EvRLock 0, EvRUnlock 0]\<rparr>)
   \<and> ticks (snd (severity ErrorLevel plainEnv discardWorld 0 (AStr ''boom'') [AStr ''k'', AInt 1])) = 0
   \<and> loggers (snd (severity ErrorLevel plainEnv discardWorld 0 (AStr ''boom'') [AStr ''k'', AInt 1]))
       = [plainLogger\<lparr>l_w := Discard\<rparr>]"
  using discard_sink [where \<sigma> = discardWorld and p = 0 and c = ErrorLevel and E = plainEnv
      and msg = "AStr ''boom''" and kvs = "[AStr ''k'', AInt 1]"] discard_hyp
  by (simp add: discardWorld_def plainWorld_def)

section \<open>The scenarios of the specification\<close>

text \<open>
  The scenarios that the specification lists, run on the model with colours off and
  styles that render a text as it is: a call with one pair, a call with an odd number
  of keyvals, a value of two lines, a derived logger next to its parent, an empty key
  and an empty value.
\<close>

lemma scenario_start_count:
  "sinks (snd (Info plainEnv plainWorld 0 (AStr ''start'') [AStr ''count'', AInt 3])) (Sink 0)
     = [''INFO start count=3'' @ [NL]]"
  by code_simp

lemma scenario_odd_keyvals:
  "sinks (snd (Info plainEnv plainWorld 0 (AStr ''x'') [AStr ''onlykey''])) (Sink 0)
     = [''INFO x onlykey=MISSING_VALUE'' @ [NL]]"
  by code_simp

lemma scenario_lines:
  "sinks (snd (Info plainEnv plainWorld 0 (AStr ''x'') [AStr ''lines'', AStr ''a\<newline>b''])) (Sink 0)
     = [''INFO x'' @ [NL] @ ''  lines='' @ [NL] @ indentBar @ ''a'' @ [NL] @ indentBar @ ''b'' @ [NL]
          @ '' '' @ [NL]]"
  by code_simp

lemma scenario_derived:
  "sinks (snd (Debug plainEnv (snd (SetLevel batchWorld 1 DebugLevel)) 1 (AStr ''go'') [])) (Sink 0)
     = [''DEBUG go batch=2'' @ [NL]]
   \<and> sinks (snd (Info plainEnv
                   (snd (Debug plainEnv (snd (SetLevel batchWorld 1 DebugLevel)) 1 (AStr ''go'') []))
                   0 (AStr ''again'') [])) (Sink 0)
     = [''DEBUG go batch=2'' @ [NL], ''INFO again'' @ [NL]]"
  by code_simp

lemma scenario_empty_value:
  "sinks (snd (Info plainEnv plainWorld 0 ANil [AStr '''', AStr ''''])) (Sink 0)
     = [''INFO  MISSING_KEY='' @ [DQ, DQ, NL]]"
  by code_simp

end
